theory Spec2Isabelle
  imports Main "HOL-Library.AList"
begin

section \<open>The guild scheduler of \<^verbatim>\<open>src/index.js\<close>\<close>

text \<open>
  The Durable Object \<^verbatim>\<open>GuildScheduler\<close> keeps two named values in its storage,
  \<^verbatim>\<open>"jobs"\<close> and \<^verbatim>\<open>"delivered"\<close>, and one alarm of the host. Its \<^verbatim>\<open>fetch\<close> handler
  serves \<^verbatim>\<open>/schedule\<close>, \<^verbatim>\<open>/list\<close> and \<^verbatim>\<open>/cancel\<close>; its \<^verbatim>\<open>alarm\<close> handler delivers the
  due jobs. The embedding below follows the source statement by statement.

  Conventions of the embedding:
  \<^item> JavaScript numbers that hold timestamps are integers here (\<^verbatim>\<open>Date.now()\<close> and Unix
    seconds are integral and far below \<open>2^53\<close>); \<^verbatim>\<open>NaN\<close> is kept as a value of its own
    where the source inspects arbitrary stored values.
  \<^item> The handlers are embedded first for jobs whose \<open>scheduledUnix\<close> and \<open>runAtMs\<close> are
    integers, which is what the worker sends. The handler itself stores
    \<^verbatim>\<open>Number(job.scheduledUnix)\<close>, which may be \<^verbatim>\<open>NaN\<close>: the alarm handler is embedded a
    second time for stored numbers that are integers or \<^verbatim>\<open>NaN\<close> (\<open>s_drain\<close>, \<open>s_alarm\<close>),
    and the first embedding is proved to be the second on stored numbers that are
    integers (\<open>s_alarm_as_stored\<close>).
  \<^item> Storage, the alarm of the host and the messages posted to the Discord API are the
    fields of one record \<open>world\<close>, passed through every operation.
  \<^item> One invocation of a handler reads one clock value \<open>now\<close>: every \<^verbatim>\<open>Date.now()\<close> of
    that invocation returns it.
  \<^item> The answer of the Discord API to the \<open>n\<close>-th message ever posted is \<open>ok n\<close>
    (\<^verbatim>\<open>r.ok\<close>), a parameter of the alarm handler. Every \<^verbatim>\<open>await\<close> on the storage and on
    \<^verbatim>\<open>fetch\<close> resolves: a rejected promise is not a branch of the embedding.
  \<^item> A thrown exception is the left summand of the result, together with the world the
    handler leaves behind.
\<close>

subsection \<open>Jobs and the dispatch table\<close>

record job =
  id' :: string
  guildId :: string
  channelId :: string
  doAtType :: string
  doAtSubject :: string
  scheduledUnix :: int
  runAtMs :: int
  repeatDaily :: bool
  createdBy :: "string option"

datatype handler = PingRole | PingUser | ChannelMessage

text \<open>
  What the property read \<^verbatim>\<open>doAtTypeHandlers[k]\<close> yields: one of the three handlers of
  the table, a property inherited from \<^verbatim>\<open>Object.prototype\<close> (the table is an object
  literal, so a read of \<^verbatim>\<open>"constructor"\<close> or \<^verbatim>\<open>"toString"\<close> finds a function that is
  no handler), or \<^verbatim>\<open>undefined\<close>.
\<close>

datatype property = Own handler | Inherited | Undefined

definition object_prototype_keys :: "string list" where
  "object_prototype_keys =
     [''constructor'', ''__defineGetter__'', ''__defineSetter__'', ''hasOwnProperty'',
      ''__lookupGetter__'', ''__lookupSetter__'', ''isPrototypeOf'',
      ''propertyIsEnumerable'', ''toString'', ''valueOf'', ''__proto__'',
      ''toLocaleString'']"

definition doAtTypeHandlers :: "string \<Rightarrow> property" where
  "doAtTypeHandlers k =
     (if k = ''ping-role'' then Own PingRole
      else if k = ''ping-user'' then Own PingUser
      else if k = ''channel-message'' then Own ChannelMessage
      else if List.member object_prototype_keys k then Inherited
      else Undefined)"

text \<open>The test \<^verbatim>\<open>k in doAtTypeHandlers\<close> follows the prototype chain as the read does.\<close>

definition in_doAtTypeHandlers :: "string \<Rightarrow> bool" where
  "in_doAtTypeHandlers k = (doAtTypeHandlers k \<noteq> Undefined)"

subsection \<open>Rendering\<close>

definition digit_char :: "nat \<Rightarrow> char" where
  "digit_char d = ''0123456789'' ! d"

fun show_nat :: "nat \<Rightarrow> string" where
  "show_nat n = (if n < 10 then [digit_char n] else show_nat (n div 10) @ [digit_char (n mod 10)])"

declare show_nat.simps [simp del]

text \<open>The decimal text of an integral number, as a template literal prints it.\<close>

definition show_int :: "int \<Rightarrow> string" where
  "show_int i = (if i < 0 then CHR ''-'' # show_nat (nat (- i)) else show_nat (nat i))"

datatype mentions = Roles "string list" | Users "string list" | ParseNone

record message =
  channel :: string
  content :: string
  allowed_mentions :: mentions

definition innerContent :: "handler \<Rightarrow> job \<Rightarrow> string" where
  "innerContent h j =
     (case h of
        PingRole \<Rightarrow> ''<@&'' @ doAtSubject j @ ''>''
      | PingUser \<Rightarrow> ''<@'' @ doAtSubject j @ ''>''
      | ChannelMessage \<Rightarrow> doAtSubject j)"

definition allowedMentions :: "handler \<Rightarrow> job \<Rightarrow> mentions" where
  "allowedMentions h j =
     (case h of
        PingRole \<Rightarrow> Roles [doAtSubject j]
      | PingUser \<Rightarrow> Users [doAtSubject j]
      | ChannelMessage \<Rightarrow> ParseNone)"

definition outerContent :: "handler \<Rightarrow> job \<Rightarrow> string \<Rightarrow> string" where
  "outerContent h j inner =
     (case h of
        PingRole \<Rightarrow>
          inner @ '' (scheduled role ping for <t:'' @ show_int (scheduledUnix j) @ '':F>)''
      | PingUser \<Rightarrow>
          inner @ '' (scheduled user ping for <t:'' @ show_int (scheduledUnix j) @ '':F>)''
      | ChannelMessage \<Rightarrow> inner)"

text \<open>The body of the POST to \<^verbatim>\<open>/channels/<channelId>/messages\<close>.\<close>

definition render :: "handler \<Rightarrow> job \<Rightarrow> message" where
  "render h j =
     \<lparr>channel = channelId j,
      content = outerContent h j (innerContent h j),
      allowed_mentions = allowedMentions h j\<rparr>"

subsection \<open>The dedup cache\<close>

text \<open>
  The cache is a plain object: its entries in insertion order, one per key. A stored
  value may be anything; the timestamps the handler itself writes are numbers.
\<close>

datatype jsval = JUndefined | JNull | JBool bool | JNum int | JNaN | JStr string | JObject

type_synonym dcache = "(string \<times> jsval) list"

definition DELIVERED_TTL_MS :: int where
  "DELIVERED_TTL_MS = 14 * 24 * 60 * 60 * 1000"

definition deliveryKey :: "job \<Rightarrow> string" where
  "deliveryKey j = id' j @ '':'' @ show_int (scheduledUnix j)"

text \<open>\<^verbatim>\<open>typeof v !== "number"\<close>; \<^verbatim>\<open>NaN\<close> is a number.\<close>

definition typeof_number :: "jsval \<Rightarrow> bool" where
  "typeof_number v = (case v of JNum _ \<Rightarrow> True | JNaN \<Rightarrow> True | _ \<Rightarrow> False)"

text \<open>\<^verbatim>\<open>v < bound\<close> for a value that is a number; every comparison with \<^verbatim>\<open>NaN\<close> is false.\<close>

definition num_less :: "jsval \<Rightarrow> int \<Rightarrow> bool" where
  "num_less v bound = (case v of JNum t \<Rightarrow> t < bound | _ \<Rightarrow> False)"

text \<open>
  The loop runs over the snapshot \<^verbatim>\<open>Object.entries(delivered)\<close> and deletes from the
  object itself.
\<close>

definition pruneDelivered :: "dcache \<Rightarrow> int \<Rightarrow> dcache" where
  "pruneDelivered delivered nowMs =
     fold (\<lambda>(k, v) d.
             if \<not> typeof_number v \<or> num_less v (nowMs - DELIVERED_TTL_MS)
             then AList.delete k d else d)
          delivered delivered"

subsection \<open>Storage, alarm and outbox\<close>

text \<open>
  What \<^verbatim>\<open>storage.get("delivered")\<close> may return: nothing (\<^verbatim>\<open>undefined\<close> or \<^verbatim>\<open>null\<close>),
  a value that is no object, or an object.
\<close>

datatype stored_delivered = DAbsent | DOther | DObject dcache

text \<open>
  \<^verbatim>\<open>(await storage.get("delivered")) ?? {}\<close>, then \<^verbatim>\<open>{}\<close> again for a value that is no
  object.
\<close>

definition load_delivered :: "stored_delivered \<Rightarrow> dcache" where
  "load_delivered s = (case s of DObject d \<Rightarrow> d | _ \<Rightarrow> [])"

text \<open>
  \<open>jobs\<close> is the stored array, the empty list when nothing is stored (every read is
  \<^verbatim>\<open>(await get("jobs")) ?? []\<close>); \<open>alarm_at\<close> is the alarm of the host as the last
  \<^verbatim>\<open>setAlarm\<close> or \<^verbatim>\<open>deleteAlarm\<close> left it; \<open>outbox\<close> lists every message posted to the
  Discord API so far, with the job it was rendered from and with \<^verbatim>\<open>r.ok\<close> of the answer.
\<close>

record world =
  jobs :: "job list"
  delivered :: stored_delivered
  alarm_at :: "int option"
  outbox :: "(job \<times> message \<times> bool) list"

datatype error = TypeError | DiscordApiError

text \<open>\<^verbatim>\<open>xs.sort((a, b) => a.runAtMs - b.runAtMs)\<close>: a stable sort on \<open>runAtMs\<close>.\<close>

definition sort_by_runAtMs :: "job list \<Rightarrow> job list" where
  "sort_by_runAtMs xs = sort_key runAtMs xs"

text \<open>\<^verbatim>\<open>xs.findIndex(p)\<close>, with \<open>None\<close> for \<open>-1\<close>.\<close>

fun findIndex :: "('a \<Rightarrow> bool) \<Rightarrow> 'a list \<Rightarrow> nat option" where
  "findIndex p [] = None"
| "findIndex p (x # xs) = (if p x then Some 0 else map_option Suc (findIndex p xs))"

text \<open>\<^verbatim>\<open>xs.splice(idx, 1)\<close> for an index in range.\<close>

definition splice1 :: "nat \<Rightarrow> 'a list \<Rightarrow> 'a list" where
  "splice1 idx xs = take idx xs @ drop (Suc idx) xs"

text \<open>
  The alarm is pointed at the first job of the sorted stored array, or deleted when
  there is none. The source repeats these lines at the end of \<^verbatim>\<open>/schedule\<close>, of
  \<^verbatim>\<open>/cancel\<close> and of \<^verbatim>\<open>alarm\<close>.
\<close>

definition resync :: "world \<Rightarrow> world" where
  "resync w =
     (case sort_by_runAtMs (jobs w) of
        [] \<Rightarrow> w\<lparr>alarm_at := None\<rparr>
      | next # _ \<Rightarrow> w\<lparr>alarm_at := Some (runAtMs next)\<rparr>)"

subsection \<open>The fetch handler: schedule, list, cancel\<close>

text \<open>The JSON body of \<^verbatim>\<open>POST /schedule\<close>, as the worker sends it.\<close>

record body =
  b_guildId :: string
  b_channelId :: string
  b_doAtType :: string
  b_doAtSubject :: string
  b_scheduledUnix :: int
  b_repeatDaily :: bool
  b_createdBy :: "string option"

text \<open>
  The responses, by their content: the job a text is rendered from stands for the text.
  \<open>JobList n shown\<close> is \<^verbatim>\<open>Scheduled jobs (n total)\<close> followed by one line for each job
  of \<open>shown\<close>.
\<close>

datatype response =
    InvalidTargetType
  | Scheduled job
  | NoScheduledJobs
  | JobList nat "job list"
  | ProvideValidJobId
  | NoJobFound string
  | Cancelled string job
  | NotFound

text \<open>\<open>uuid\<close> is the value \<^verbatim>\<open>crypto.randomUUID()\<close> returns.\<close>

definition schedule :: "string \<Rightarrow> body \<Rightarrow> world \<Rightarrow> response \<times> world" where
  "schedule uuid b w =
     (if \<not> in_doAtTypeHandlers (b_doAtType b) then (InvalidTargetType, w)
      else
        let j = \<lparr>id' = uuid,
                 guildId = b_guildId b,
                 channelId = b_channelId b,
                 doAtType = b_doAtType b,
                 doAtSubject = b_doAtSubject b,
                 scheduledUnix = b_scheduledUnix b,
                 runAtMs = b_scheduledUnix b * 1000,
                 repeatDaily = b_repeatDaily b,
                 createdBy = b_createdBy b\<rparr>;
            w1 = w\<lparr>jobs := sort_by_runAtMs (jobs w @ [j])\<rparr>
        in (Scheduled j, resync w1))"

text \<open>
  \<^verbatim>\<open>/list\<close> sorts a copy, shows the first 15 jobs and renders each with
  \<^verbatim>\<open>doAtTypeHandlers[j.doAtType].innerContent(j)\<close>, which throws a \<^verbatim>\<open>TypeError\<close> when the
  read yields no handler.
\<close>

definition is_Own :: "property \<Rightarrow> bool" where
  "is_Own p = (case p of Own _ \<Rightarrow> True | _ \<Rightarrow> False)"

definition list_jobs :: "world \<Rightarrow> error + response" where
  "list_jobs w =
     (let js = sort_by_runAtMs (jobs w) in
      if length js = 0 then Inr NoScheduledJobs
      else if list_all (\<lambda>j. is_Own (doAtTypeHandlers (doAtType j))) (take 15 js)
      then Inr (JobList (length js) (take 15 js))
      else Inl TypeError)"

text \<open>
  \<^verbatim>\<open>String.prototype.trim\<close> on the white space of ASCII (tab, line feed, vertical tab,
  form feed, carriage return, space); strings are byte strings here, so the white space
  beyond ASCII is not trimmed.
\<close>

definition is_space :: "char \<Rightarrow> bool" where
  "is_space c = (of_char c \<in> {9, 10, 11, 12, 13, 32 :: nat})"

definition js_trim :: "string \<Rightarrow> string" where
  "js_trim s = rev (dropWhile is_space (rev (dropWhile is_space s)))"

text \<open>
  \<^verbatim>\<open>/cancel\<close>; the argument is \<^verbatim>\<open>body?.jobId\<close>, \<open>None\<close> when the body has none.
\<close>

definition cancel :: "string option \<Rightarrow> world \<Rightarrow> response \<times> world" where
  "cancel raw w =
     (let jobId = js_trim (case raw of None \<Rightarrow> [] | Some s \<Rightarrow> s) in
      if jobId = [] then (ProvideValidJobId, w)
      else
        case findIndex (\<lambda>j. id' j = jobId) (jobs w) of
          None \<Rightarrow> (NoJobFound jobId, w)
        | Some idx \<Rightarrow>
            let removed = jobs w ! idx;
                w1 = w\<lparr>jobs := sort_by_runAtMs (splice1 idx (jobs w))\<rparr>
            in (Cancelled jobId removed, resync w1))"

datatype request = PostSchedule body | GetList | PostCancel "string option" | Other

definition fetch :: "string \<Rightarrow> request \<Rightarrow> world \<Rightarrow> (error + response) \<times> world" where
  "fetch uuid r w =
     (case r of
        PostSchedule b \<Rightarrow> (let (resp, w') = schedule uuid b w in (Inr resp, w'))
      | GetList \<Rightarrow> (list_jobs w, w)
      | PostCancel raw \<Rightarrow> (let (resp, w') = cancel raw w in (Inr resp, w'))
      | Other \<Rightarrow> (Inr NotFound, w))"

subsection \<open>The alarm handler\<close>

text \<open>\<^verbatim>\<open>delivered[key] !== undefined\<close>.\<close>

definition alreadyDelivered :: "dcache \<Rightarrow> string \<Rightarrow> bool" where
  "alreadyDelivered cache key =
     (case map_of cache key of None \<Rightarrow> False | Some JUndefined \<Rightarrow> False | Some _ \<Rightarrow> True)"

text \<open>
  The match \<^verbatim>\<open>j.id === job.id && j.scheduledUnix === job.scheduledUnix\<close>, on integers;
  \<open>s_same_occurrence\<close> below is the match on stored numbers that may be \<^verbatim>\<open>NaN\<close>.
\<close>

definition same_occurrence :: "job \<Rightarrow> job \<Rightarrow> bool" where
  "same_occurrence job j = (id' j = id' job \<and> scheduledUnix j = scheduledUnix job)"

text \<open>The transaction of the branch for a job whose type has no handler.\<close>

definition purge_unknown :: "job \<Rightarrow> world \<Rightarrow> world" where
  "purge_unknown job w =
     (let curJobs = jobs w in
      case findIndex (same_occurrence job) curJobs of
        None \<Rightarrow> w
      | Some idx \<Rightarrow> w\<lparr>jobs := sort_by_runAtMs (splice1 idx curJobs)\<rparr>)"

text \<open>The catch-up loop \<^verbatim>\<open>while (nextMs <= Date.now())\<close>.\<close>

function catch_up :: "int \<Rightarrow> int \<Rightarrow> int \<Rightarrow> int \<times> int" where
  "catch_up now nextUnix nextMs =
     (if nextMs \<le> now then catch_up now (nextUnix + 86400) (nextMs + 86400000)
      else (nextUnix, nextMs))"
  by pat_completeness auto
termination
  by (relation "measure (\<lambda>(now, nextUnix, nextMs). nat (now + 1 - nextMs))") auto

declare catch_up.simps [simp del]

text \<open>The second transaction: remove this occurrence, or move it to its next day.\<close>

definition remove_or_reschedule :: "int \<Rightarrow> job \<Rightarrow> world \<Rightarrow> world" where
  "remove_or_reschedule now job w =
     (let curJobs = sort_by_runAtMs (jobs w) in
      case findIndex (same_occurrence job) curJobs of
        None \<Rightarrow> w
      | Some idx \<Rightarrow>
          let cur = curJobs ! idx;
              rest = splice1 idx curJobs;
              curJobs' =
                (if repeatDaily cur then
                   let (nextUnix, nextMs) =
                         catch_up now (scheduledUnix cur + 86400) (runAtMs cur + 86400000)
                   in rest @ [cur\<lparr>scheduledUnix := nextUnix, runAtMs := nextMs\<rparr>]
                 else rest)
          in w\<lparr>jobs := sort_by_runAtMs curJobs'\<rparr>)"

subsection \<open>Facts about the two transactions, for the termination of the drain loop\<close>

lemma findIndex_None: "findIndex p xs = None \<longleftrightarrow> (\<forall>x\<in>set xs. \<not> p x)"
  by (induction xs) auto

lemma findIndex_Some:
  "findIndex p xs = Some i \<Longrightarrow> i < length xs \<and> p (xs ! i) \<and> (\<forall>k<i. \<not> p (xs ! k))"
proof (induction xs arbitrary: i)
  case Nil
  then show ?case by simp
next
  case (Cons x xs)
  show ?case
  proof (cases "p x")
    case True
    with Cons.prems show ?thesis by simp
  next
    case False
    with Cons.prems obtain i' where i': "findIndex p xs = Some i'" "i = Suc i'"
      by auto
    from Cons.IH [OF i'(1)] False i'(2) show ?thesis
      by (auto simp: less_Suc_eq_0_disj)
  qed
qed

lemma length_splice1: "i < length xs \<Longrightarrow> length (splice1 i xs) = length xs - 1"
  by (simp add: splice1_def)

lemma splice1_0 [simp]: "splice1 0 (x # xs) = xs"
  by (simp add: splice1_def)

lemma length_sort_by [simp]: "length (sort_by_runAtMs js) = length js"
  by (simp add: sort_by_runAtMs_def)

lemma set_sort_by [simp]: "set (sort_by_runAtMs js) = set js"
  by (simp add: sort_by_runAtMs_def)

lemma sort_by_head_Min:
  assumes "sort_by_runAtMs xs = y # ys"
  shows "runAtMs y = Min (runAtMs ` set xs)"
proof -
  have "sorted (map runAtMs (y # ys))"
    using assms by (metis sort_by_runAtMs_def sorted_sort_key)
  then have le: "\<forall>z\<in>set (y # ys). runAtMs y \<le> runAtMs z"
    by auto
  have set: "set (y # ys) = set xs"
    using assms by (metis set_sort_by)
  show ?thesis
  proof (rule Min_eqI [symmetric])
    show "finite (runAtMs ` set xs)" by simp
    show "runAtMs y \<in> runAtMs ` set xs" using set by auto
    show "\<And>t. t \<in> runAtMs ` set xs \<Longrightarrow> runAtMs y \<le> t" using le set by auto
  qed
qed

lemma sort_by_empty [simp]: "sort_by_runAtMs [] = []"
  by (simp add: sort_by_runAtMs_def)

lemma sort_by_Nil [simp]: "sort_by_runAtMs xs = [] \<longleftrightarrow> xs = []"
  by (metis length_0_conv length_sort_by)

lemma catch_up_future: "now < snd (catch_up now u m)"
  by (induction now u m rule: catch_up.induct) (simp add: catch_up.simps)

text \<open>The job that the second transaction puts back for a repeating job \<open>cur\<close>.\<close>

definition advance :: "int \<Rightarrow> job \<Rightarrow> job" where
  "advance now cur =
     (let (nextUnix, nextMs) = catch_up now (scheduledUnix cur + 86400) (runAtMs cur + 86400000)
      in cur\<lparr>scheduledUnix := nextUnix, runAtMs := nextMs\<rparr>)"

lemma advance_future: "now < runAtMs (advance now cur)"
  using catch_up_future [of now "scheduledUnix cur + 86400" "runAtMs cur + 86400000"]
  by (simp add: advance_def split_beta)

lemma remove_or_reschedule_head:
  assumes "sort_by_runAtMs (jobs w) = job # rest"
  shows "jobs (remove_or_reschedule now job w) =
         sort_by_runAtMs (if repeatDaily job then rest @ [advance now job] else rest)"
  using assms
  by (simp add: remove_or_reschedule_def same_occurrence_def advance_def split: prod.splits)

text \<open>The number of jobs that are due at \<open>now\<close>.\<close>

definition due_count :: "int \<Rightarrow> job list \<Rightarrow> nat" where
  "due_count now js = length (filter (\<lambda>j. runAtMs j \<le> now) js)"

lemma due_count_Cons:
  "due_count now (j # js) = (if runAtMs j \<le> now then Suc (due_count now js) else due_count now js)"
  by (simp add: due_count_def)

lemma due_count_snoc:
  "due_count now (js @ [j]) = (if runAtMs j \<le> now then Suc (due_count now js) else due_count now js)"
  by (simp add: due_count_def)

lemma due_count_sort [simp]: "due_count now (sort_by_runAtMs js) = due_count now js"
  by (simp add: due_count_def sort_by_runAtMs_def filter_sort)

lemma due_count_splice1: "due_count now (splice1 i xs) \<le> due_count now xs"
proof -
  have "due_count now xs = due_count now (take i xs) + due_count now (drop i xs)"
    by (metis append_take_drop_id due_count_def filter_append length_append)
  moreover have "due_count now (drop (Suc i) xs) \<le> due_count now (drop i xs)"
    by (cases "i < length xs") (simp_all add: due_count_def Cons_nth_drop_Suc [symmetric])
  ultimately show ?thesis
    by (simp add: splice1_def due_count_def)
qed

lemma purge_unknown_measure:
  assumes "sort_by_runAtMs (jobs w) = job # rest"
  shows "length (jobs (purge_unknown job w)) + due_count now (jobs (purge_unknown job w))
         < length (jobs w) + due_count now (jobs w)"
proof -
  have "job \<in> set (jobs w)"
    using assms by (metis list.set_intros(1) set_sort_by)
  then have "findIndex (same_occurrence job) (jobs w) \<noteq> None"
    by (auto simp: findIndex_None same_occurrence_def)
  then obtain i where i: "findIndex (same_occurrence job) (jobs w) = Some i"
    by auto
  then have "i < length (jobs w)"
    using findIndex_Some by fastforce
  then show ?thesis
    using i due_count_splice1 [of now i "jobs w"]
    by (simp add: purge_unknown_def length_splice1 add_less_le_mono)
qed

lemma remove_or_reschedule_measure:
  assumes "sort_by_runAtMs (jobs w) = job # rest" and "runAtMs job \<le> now"
    and "jobs w' = jobs w"
  shows "length (jobs (remove_or_reschedule now job w')) +
           due_count now (jobs (remove_or_reschedule now job w'))
         < length (jobs w) + due_count now (jobs w)"
proof -
  have len: "length (jobs w) = Suc (length rest)"
    using assms(1) by (metis length_Cons length_sort_by)
  have "due_count now (jobs w) = due_count now (job # rest)"
    using assms(1) by (metis due_count_sort)
  then have due: "due_count now (jobs w) = Suc (due_count now rest)"
    using assms(2) by (simp add: due_count_Cons)
  have head: "sort_by_runAtMs (jobs w') = job # rest"
    using assms by simp
  show ?thesis
    using advance_future [of now job]
    by (simp add: remove_or_reschedule_head [OF head] len due due_count_snoc)
qed

subsection \<open>The drain loop and the alarm handler\<close>

text \<open>
  One run of \<^verbatim>\<open>while (true)\<close> per call; \<open>cache\<close> is the object \<^verbatim>\<open>delivered\<close> held in
  memory. The loop ends with \<open>Inr\<close> at \<^verbatim>\<open>break\<close> and with \<open>Inl\<close> where the source throws:
  \<^verbatim>\<open>handler.innerContent\<close> is no function when the read found an inherited property, and
  the answer of the Discord API was not ok. On jobs whose numbers are integers the loop
  is a total function, by the measure below; \<open>s_drain\<close> is the loop on stored numbers that
  may be \<^verbatim>\<open>NaN\<close>, where it is not.
\<close>

function drain ::
  "int \<Rightarrow> (nat \<Rightarrow> bool) \<Rightarrow> dcache \<Rightarrow> world \<Rightarrow> (error \<times> world) + (dcache \<times> world)" where
  "drain now ok cache w =
     (case sort_by_runAtMs (jobs w) of
        [] \<Rightarrow> Inr (cache, w)
      | job # _ \<Rightarrow>
          if runAtMs job > now then Inr (cache, w)
          else if \<not> alreadyDelivered cache (deliveryKey job) then
            (case doAtTypeHandlers (doAtType job) of
               Undefined \<Rightarrow> drain now ok cache (purge_unknown job w)
             | Inherited \<Rightarrow> Inl (TypeError, w)
             | Own h \<Rightarrow>
                 let r_ok = ok (length (outbox w));
                     w1 = w\<lparr>outbox := outbox w @ [(job, render h job, r_ok)]\<rparr>
                 in
                 if \<not> r_ok then
                   Inl (DiscordApiError, w1\<lparr>delivered := DObject (pruneDelivered cache now)\<rparr>)
                 else
                   let cache1 = AList.update (deliveryKey job) (JNum now) cache;
                       cache2 = pruneDelivered cache1 now;
                       w2 = w1\<lparr>delivered := DObject cache2\<rparr>
                   in drain now ok cache2 (remove_or_reschedule now job w2))
          else drain now ok cache (remove_or_reschedule now job w))"
  by pat_completeness auto
termination
  apply (relation "measure (\<lambda>(now, ok, cache, w). length (jobs w) + due_count now (jobs w))")
     apply simp
    apply (auto intro!: purge_unknown_measure remove_or_reschedule_measure)
  done

declare drain.simps [simp del]

definition alarm :: "int \<Rightarrow> (nat \<Rightarrow> bool) \<Rightarrow> world \<Rightarrow> (error \<times> world) + world" where
  "alarm now ok w =
     (let cache = pruneDelivered (load_delivered (delivered w)) now in
      case drain now ok cache w of
        Inl thrown \<Rightarrow> Inl thrown
      | Inr (cache', w') \<Rightarrow> Inr (resync (w'\<lparr>delivered := DObject (pruneDelivered cache' now)\<rparr>)))"

text \<open>The world an invocation leaves behind, however it ended.\<close>

definition world_of :: "(error \<times> world) + world \<Rightarrow> world" where
  "world_of r = (case r of Inl (e, w) \<Rightarrow> w | Inr w \<Rightarrow> w)"

subsection \<open>The iterations of the drain loop\<close>

lemma drain_empty:
  "sort_by_runAtMs (jobs w) = [] \<Longrightarrow> drain now ok cache w = Inr (cache, w)"
  by (subst drain.simps) simp

lemma drain_future:
  "sort_by_runAtMs (jobs w) = job # rest \<Longrightarrow> now < runAtMs job \<Longrightarrow>
   drain now ok cache w = Inr (cache, w)"
  by (subst drain.simps) simp

lemma drain_purge:
  "sort_by_runAtMs (jobs w) = job # rest \<Longrightarrow> runAtMs job \<le> now \<Longrightarrow>
   \<not> alreadyDelivered cache (deliveryKey job) \<Longrightarrow>
   doAtTypeHandlers (doAtType job) = Undefined \<Longrightarrow>
   drain now ok cache w = drain now ok cache (purge_unknown job w)"
  by (subst drain.simps) simp

lemma drain_type_error:
  "sort_by_runAtMs (jobs w) = job # rest \<Longrightarrow> runAtMs job \<le> now \<Longrightarrow>
   \<not> alreadyDelivered cache (deliveryKey job) \<Longrightarrow>
   doAtTypeHandlers (doAtType job) = Inherited \<Longrightarrow>
   drain now ok cache w = Inl (TypeError, w)"
  by (subst drain.simps) simp

lemma drain_fail:
  "sort_by_runAtMs (jobs w) = job # rest \<Longrightarrow> runAtMs job \<le> now \<Longrightarrow>
   \<not> alreadyDelivered cache (deliveryKey job) \<Longrightarrow>
   doAtTypeHandlers (doAtType job) = Own h \<Longrightarrow> \<not> ok (length (outbox w)) \<Longrightarrow>
   drain now ok cache w =
     Inl (DiscordApiError,
          w\<lparr>outbox := outbox w @ [(job, render h job, False)],
            delivered := DObject (pruneDelivered cache now)\<rparr>)"
  by (subst drain.simps) simp

lemma drain_send:
  "sort_by_runAtMs (jobs w) = job # rest \<Longrightarrow> runAtMs job \<le> now \<Longrightarrow>
   \<not> alreadyDelivered cache (deliveryKey job) \<Longrightarrow>
   doAtTypeHandlers (doAtType job) = Own h \<Longrightarrow> ok (length (outbox w)) \<Longrightarrow>
   drain now ok cache w =
     drain now ok (pruneDelivered (AList.update (deliveryKey job) (JNum now) cache) now)
       (remove_or_reschedule now job
          (w\<lparr>outbox := outbox w @ [(job, render h job, True)],
             delivered := DObject
               (pruneDelivered (AList.update (deliveryKey job) (JNum now) cache) now)\<rparr>))"
  by (subst drain.simps) (simp add: Let_def)

lemma drain_skip:
  "sort_by_runAtMs (jobs w) = job # rest \<Longrightarrow> runAtMs job \<le> now \<Longrightarrow>
   alreadyDelivered cache (deliveryKey job) \<Longrightarrow>
   drain now ok cache w = drain now ok cache (remove_or_reschedule now job w)"
  by (subst drain.simps) simp

lemma drain_cases_induct [case_names empty future purge type_error fail send skip]:
  assumes "\<And>now ok cache w. sort_by_runAtMs (jobs w) = [] \<Longrightarrow> P now ok cache w"
    and "\<And>now ok cache w job rest.
           sort_by_runAtMs (jobs w) = job # rest \<Longrightarrow> now < runAtMs job \<Longrightarrow>
           P now ok cache w"
    and "\<And>now ok cache w job rest.
           sort_by_runAtMs (jobs w) = job # rest \<Longrightarrow> runAtMs job \<le> now \<Longrightarrow>
           \<not> alreadyDelivered cache (deliveryKey job) \<Longrightarrow>
           doAtTypeHandlers (doAtType job) = Undefined \<Longrightarrow>
           P now ok cache (purge_unknown job w) \<Longrightarrow> P now ok cache w"
    and "\<And>now ok cache w job rest.
           sort_by_runAtMs (jobs w) = job # rest \<Longrightarrow> runAtMs job \<le> now \<Longrightarrow>
           \<not> alreadyDelivered cache (deliveryKey job) \<Longrightarrow>
           doAtTypeHandlers (doAtType job) = Inherited \<Longrightarrow> P now ok cache w"
    and "\<And>now ok cache w job rest h.
           sort_by_runAtMs (jobs w) = job # rest \<Longrightarrow> runAtMs job \<le> now \<Longrightarrow>
           \<not> alreadyDelivered cache (deliveryKey job) \<Longrightarrow>
           doAtTypeHandlers (doAtType job) = Own h \<Longrightarrow> \<not> ok (length (outbox w)) \<Longrightarrow>
           P now ok cache w"
    and "\<And>now ok cache w job rest h.
           sort_by_runAtMs (jobs w) = job # rest \<Longrightarrow> runAtMs job \<le> now \<Longrightarrow>
           \<not> alreadyDelivered cache (deliveryKey job) \<Longrightarrow>
           doAtTypeHandlers (doAtType job) = Own h \<Longrightarrow> ok (length (outbox w)) \<Longrightarrow>
           P now ok (pruneDelivered (AList.update (deliveryKey job) (JNum now) cache) now)
             (remove_or_reschedule now job
                (w\<lparr>outbox := outbox w @ [(job, render h job, True)],
                   delivered := DObject
                     (pruneDelivered (AList.update (deliveryKey job) (JNum now) cache) now)\<rparr>)) \<Longrightarrow>
           P now ok cache w"
    and "\<And>now ok cache w job rest.
           sort_by_runAtMs (jobs w) = job # rest \<Longrightarrow> runAtMs job \<le> now \<Longrightarrow>
           alreadyDelivered cache (deliveryKey job) \<Longrightarrow>
           P now ok cache (remove_or_reschedule now job w) \<Longrightarrow> P now ok cache w"
  shows "P now ok cache w"
proof (induction now ok cache w rule: drain.induct)
  case (1 now ok cache w)
  show ?case
  proof (cases "sort_by_runAtMs (jobs w)")
    case Nil
    then show ?thesis by (rule assms(1))
  next
    case (Cons job rest)
    show ?thesis
    proof (cases "now < runAtMs job")
      case True
      with Cons show ?thesis by (rule assms(2))
    next
      case False
      then have due: "runAtMs job \<le> now" by simp
      show ?thesis
      proof (cases "alreadyDelivered cache (deliveryKey job)")
        case True
        have "P now ok cache (remove_or_reschedule now job w)"
          using "1.IH"(3) [OF Cons False] True by simp
        with Cons due True show ?thesis by (rule assms(7))
      next
        case fresh: False
        show ?thesis
        proof (cases "doAtTypeHandlers (doAtType job)")
          case (Own h)
          show ?thesis
          proof (cases "ok (length (outbox w))")
            case True
            have "P now ok (pruneDelivered (AList.update (deliveryKey job) (JNum now) cache) now)
                    (remove_or_reschedule now job
                       (w\<lparr>outbox := outbox w @ [(job, render h job, True)],
                          delivered := DObject
                            (pruneDelivered (AList.update (deliveryKey job) (JNum now) cache)
                               now)\<rparr>))"
              using "1.IH"(1) [OF Cons False fresh Own refl refl _ refl refl refl] True
              by simp
            with Cons due fresh Own True show ?thesis by (rule assms(6))
          next
            case False
            with Cons due fresh Own show ?thesis by (rule assms(5))
          qed
        next
          case Inherited
          with Cons due fresh show ?thesis by (rule assms(4))
        next
          case Undefined
          have "P now ok cache (purge_unknown job w)"
            using "1.IH"(2) [OF Cons False fresh Undefined] .
          with Cons due fresh Undefined show ?thesis by (rule assms(3))
        qed
      qed
    qed
  qed
qed

subsection \<open>Notions the statements use, and sample worlds\<close>

text \<open>
  The alarm agrees with the stored jobs: it is the least \<open>runAtMs\<close> among them, and there
  is none exactly when there is no job.
\<close>

definition alarm_consistent :: "world \<Rightarrow> bool" where
  "alarm_consistent w =
     (alarm_at w = (if jobs w = [] then None else Some (Min (runAtMs ` set (jobs w)))))"

text \<open>A sequence of requests, each with the identifier the runtime would draw for it.\<close>

definition run :: "(string \<times> request) list \<Rightarrow> world \<Rightarrow> world" where
  "run reqs w = fold (\<lambda>(uuid, r) w. snd (fetch uuid r w)) reqs w"

text \<open>A fresh tenant, and sample jobs and worlds for the instances below.\<close>

definition empty_world :: world where
  "empty_world = \<lparr>jobs = [], delivered = DAbsent, alarm_at = None, outbox = []\<rparr>"

definition ex_body :: body where
  "ex_body = \<lparr>b_guildId = ''g1'', b_channelId = ''c1'', b_doAtType = ''ping-role'',
              b_doAtSubject = ''123456'', b_scheduledUnix = 1700000000,
              b_repeatDaily = False, b_createdBy = Some ''u9''\<rparr>"

definition ex_job :: job where
  "ex_job = \<lparr>id' = ''id-1'', guildId = ''g1'', channelId = ''c1'', doAtType = ''ping-role'',
             doAtSubject = ''123456'', scheduledUnix = 1700000000, runAtMs = 1700000000000,
             repeatDaily = False, createdBy = Some ''u9''\<rparr>"

definition ex_job2 :: job where
  "ex_job2 = \<lparr>id' = ''id-2'', guildId = ''g1'', channelId = ''c2'',
              doAtType = ''channel-message'', doAtSubject = ''hello'',
              scheduledUnix = 1700000100, runAtMs = 1700000100000, repeatDaily = True,
              createdBy = None\<rparr>"

definition ex_world :: world where
  "ex_world = \<lparr>jobs = [ex_job, ex_job2], delivered = DAbsent,
               alarm_at = Some 1700000000000, outbox = []\<rparr>"

definition late_world :: world where
  "late_world = \<lparr>jobs = [ex_job2], delivered = DAbsent, alarm_at = Some 1700000100000,
                 outbox = []\<rparr>"

definition two_due :: world where
  "two_due = \<lparr>jobs = [ex_job, ex_job2], delivered = DAbsent, alarm_at = Some 1700000000000,
              outbox = []\<rparr>"

definition failed_world :: world where
  "failed_world =
     \<lparr>jobs = [ex_job2],
      delivered = DObject [(''id-1:1700000000'', JNum 1700000100500)],
      alarm_at = Some 1700000000000,
      outbox = [(ex_job, render PingRole ex_job, True),
                (ex_job2, render ChannelMessage ex_job2, False)]\<rparr>"

definition retried_world :: world where
  "retried_world =
     \<lparr>jobs = [ex_job2\<lparr>scheduledUnix := 1700086500, runAtMs := 1700086500000\<rparr>],
      delivered = DObject [(''id-1:1700000000'', JNum 1700000100500),
                           (''id-2:1700000100'', JNum 1700000100600)],
      alarm_at = Some 1700086500000,
      outbox = [(ex_job, render PingRole ex_job, True),
                (ex_job2, render ChannelMessage ex_job2, False),
                (ex_job2, render ChannelMessage ex_job2, True)]\<rparr>"

text \<open>
  The world after a crash between the write of the cache and the second transaction:
  the message for \<open>ex_job\<close> went out at 1700000000400, the job is still stored.
\<close>

definition crashed_world :: world where
  "crashed_world =
     \<lparr>jobs = [ex_job, ex_job2],
      delivered = DObject [(''id-1:1700000000'', JNum 1700000000400)],
      alarm_at = Some 1700000000000,
      outbox = [(ex_job, render PingRole ex_job, True)]\<rparr>"

text \<open>
  The world after the same crash with one stored job: the cache holds the time of the
  send, 1700000000400. The instance below wakes it fifteen days later.
\<close>

definition stale_world :: world where
  "stale_world =
     \<lparr>jobs = [ex_job],
      delivered = DObject [(''id-1:1700000000'', JNum 1700000000400)],
      alarm_at = Some 1700000000000,
      outbox = [(ex_job, render PingRole ex_job, True)]\<rparr>"

definition inherited_job :: job where
  "inherited_job = ex_job\<lparr>doAtType := ''constructor''\<rparr>"

definition legacy_job :: job where
  "legacy_job = ex_job\<lparr>doAtType := ''undefined''\<rparr>"

text \<open>The equations that evaluate the handlers on a concrete world.\<close>

lemmas eval_defs =
  alarm_def drain.simps sort_by_runAtMs_def load_delivered_def pruneDelivered_def
  alreadyDelivered_def deliveryKey_def doAtTypeHandlers_def object_prototype_keys_def
  show_int_def show_nat.simps digit_char_def render_def innerContent_def outerContent_def
  allowedMentions_def remove_or_reschedule_def purge_unknown_def same_occurrence_def
  splice1_def resync_def typeof_number_def num_less_def DELIVERED_TTL_MS_def
  AList.delete_eq catch_up.simps Let_def schedule_def cancel_def list_jobs_def fetch_def
  in_doAtTypeHandlers_def is_Own_def js_trim_def is_space_def run_def world_of_def

lemmas ex_defs =
  empty_world_def ex_body_def ex_job_def ex_job2_def ex_world_def late_world_def two_due_def
  failed_world_def retried_world_def crashed_world_def stale_world_def inherited_job_def
  legacy_job_def

subsection \<open>The prune as a filter\<close>


lemma fold_delete_filter:
  "fold (\<lambda>(k, v) d. if P v then AList.delete k d else d) es d =
     filter (\<lambda>(k, v). \<not> (\<exists>v'. (k, v') \<in> set es \<and> P v')) d"
proof (induction es arbitrary: d)
  case Nil
  then show ?case by simp
next
  case (Cons e es)
  obtain k v where e: "e = (k, v)" by (cases e)
  show ?case
  proof (cases "P v")
    case True
    have "fold (\<lambda>(k, v) d. if P v then AList.delete k d else d) (e # es) d =
          filter (\<lambda>(k', v). \<not> (\<exists>v'. (k', v') \<in> set es \<and> P v')) (AList.delete k d)"
      using True e Cons.IH by simp
    also have "\<dots> = filter (\<lambda>(k', v). \<not> (\<exists>v'. (k', v') \<in> set (e # es) \<and> P v')) d"
      using True e by (auto simp: AList.delete_eq intro!: filter_cong)
    finally show ?thesis .
  next
    case False
    have "fold (\<lambda>(k, v) d. if P v then AList.delete k d else d) (e # es) d =
          filter (\<lambda>(k', v). \<not> (\<exists>v'. (k', v') \<in> set es \<and> P v')) d"
      using False e Cons.IH by simp
    also have "\<dots> = filter (\<lambda>(k', v). \<not> (\<exists>v'. (k', v') \<in> set (e # es) \<and> P v')) d"
      using False e by (auto intro!: filter_cong)
    finally show ?thesis .
  qed
qed

lemma pruneDelivered_filter:
  assumes "distinct (map fst cache)"
  shows "pruneDelivered cache nowMs =
         filter (\<lambda>(k, v). typeof_number v \<and> \<not> num_less v (nowMs - DELIVERED_TTL_MS)) cache"
proof -
  have same: "(k, v') \<in> set cache \<Longrightarrow> (k, v) \<in> set cache \<Longrightarrow> v' = v" for k v v'
    using assms by (meson eq_key_imp_eq_value)
  show ?thesis
    unfolding pruneDelivered_def fold_delete_filter
    by (rule filter_cong) (auto dest: same)
qed

subsection \<open>The cache between prunes\<close>

text \<open>A value that the prune at \<open>now\<close> keeps.\<close>

definition kept :: "int \<Rightarrow> jsval \<Rightarrow> bool" where
  "kept now v = (typeof_number v \<and> \<not> num_less v (now - DELIVERED_TTL_MS))"

text \<open>A cache in which the prune at \<open>now\<close> finds nothing to delete.\<close>

definition pruned :: "int \<Rightarrow> dcache \<Rightarrow> bool" where
  "pruned now cache = list_all (\<lambda>(k, v). kept now v) cache"

lemma pruneDelivered_general:
  "pruneDelivered cache now =
     filter (\<lambda>(k, v). \<not> (\<exists>v'. (k, v') \<in> set cache \<and> \<not> kept now v')) cache"
  unfolding pruneDelivered_def kept_def
  using fold_delete_filter
    [of "\<lambda>v. \<not> typeof_number v \<or> num_less v (now - DELIVERED_TTL_MS)" cache cache]
  by simp

lemma pruned_pruneDelivered: "pruned now (pruneDelivered cache now)"
  by (auto simp: pruned_def pruneDelivered_general list_all_iff)

lemma pruneDelivered_id: "pruned now cache \<Longrightarrow> pruneDelivered cache now = cache"
  unfolding pruneDelivered_general
  by (rule filter_True) (auto simp: pruned_def list_all_iff)

lemma set_pruneDelivered: "set (pruneDelivered cache now) \<subseteq> set cache"
  by (auto simp: pruneDelivered_general)

lemma kept_now: "kept now (JNum now)"
  by (simp add: kept_def typeof_number_def num_less_def DELIVERED_TTL_MS_def)

lemma set_update_subset: "set (AList.update k v al) \<subseteq> insert (k, v) (set al)"
  by (induction al) auto

lemma set_update_new: "k \<notin> fst ` set al \<Longrightarrow> set (AList.update k v al) = insert (k, v) (set al)"
  by (induction al) (auto simp: image_iff)

lemma keys_update: "fst ` set (AList.update k v al) = insert k (fst ` set al)"
  by (induction al) auto

lemma pruned_update: "pruned now cache \<Longrightarrow> pruned now (AList.update k (JNum now) cache)"
  using set_update_subset [of k "JNum now" cache] kept_now [of now]
  by (auto simp: pruned_def list_all_iff)

lemma alreadyDelivered_pruned:
  assumes "pruned now cache"
  shows "alreadyDelivered cache k \<longleftrightarrow> k \<in> fst ` set cache"
proof (cases "map_of cache k")
  case None
  then have "k \<notin> fst ` set cache"
    by (simp add: map_of_eq_None_iff)
  with None show ?thesis
    by (simp add: alreadyDelivered_def)
next
  case (Some v)
  then have "(k, v) \<in> set cache"
    by (rule map_of_SomeD)
  with assms have "kept now v"
    by (auto simp: pruned_def list_all_iff)
  then have "v \<noteq> JUndefined"
    by (auto simp: kept_def typeof_number_def)
  moreover have "k \<in> fst ` set cache"
    using \<open>(k, v) \<in> set cache\<close> by force
  ultimately show ?thesis
    using Some by (cases v) (simp_all add: alreadyDelivered_def)
qed

lemma not_alreadyDelivered_pruneDelivered:
  assumes "\<not> alreadyDelivered cache k"
  shows "k \<notin> fst ` set (pruneDelivered cache now)"
proof (cases "map_of cache k")
  case None
  then have "k \<notin> fst ` set cache"
    by (simp add: map_of_eq_None_iff)
  with set_pruneDelivered [of cache now] show ?thesis
    by auto
next
  case (Some v)
  with assms have v: "v = JUndefined"
    by (cases v) (simp_all add: alreadyDelivered_def)
  from Some have "(k, v) \<in> set cache"
    by (rule map_of_SomeD)
  moreover have "\<not> kept now v"
    using v by (simp add: kept_def typeof_number_def)
  ultimately show ?thesis
    by (auto simp: pruneDelivered_general)
qed

subsection \<open>What an invocation posts\<close>

text \<open>The world a run of the drain loop leaves behind.\<close>

definition dworld :: "(error \<times> world) + (dcache \<times> world) \<Rightarrow> world" where
  "dworld r = (case r of Inl (e, w) \<Rightarrow> w | Inr (c, w) \<Rightarrow> w)"

text \<open>The messages posted between two worlds.\<close>

definition posts :: "world \<Rightarrow> world \<Rightarrow> (job \<times> message \<times> bool) list" where
  "posts w w' = drop (length (outbox w)) (outbox w')"

lemma outbox_purge_unknown [simp]: "outbox (purge_unknown job w) = outbox w"
  by (simp add: purge_unknown_def Let_def split: option.splits)

lemma outbox_remove_or_reschedule [simp]: "outbox (remove_or_reschedule now job w) = outbox w"
  by (simp add: remove_or_reschedule_def Let_def split: option.splits)

lemma delivered_purge_unknown [simp]: "delivered (purge_unknown job w) = delivered w"
  by (simp add: purge_unknown_def Let_def split: option.splits)

lemma delivered_remove_or_reschedule [simp]:
  "delivered (remove_or_reschedule now job w) = delivered w"
  by (simp add: remove_or_reschedule_def Let_def split: option.splits)

lemma alarm_at_purge_unknown [simp]: "alarm_at (purge_unknown job w) = alarm_at w"
  by (simp add: purge_unknown_def Let_def split: option.splits)

lemma alarm_at_remove_or_reschedule [simp]:
  "alarm_at (remove_or_reschedule now job w) = alarm_at w"
  by (simp add: remove_or_reschedule_def Let_def split: option.splits)

lemma remove_or_reschedule_jobs_cong:
  "jobs w' = jobs w \<Longrightarrow> jobs (remove_or_reschedule now job w') = jobs (remove_or_reschedule now job w)"
  by (simp add: remove_or_reschedule_def Let_def split: option.splits)

text \<open>The outbox only grows.\<close>

lemmas drain_steps =
  drain_empty drain_future drain_purge drain_type_error drain_fail drain_send drain_skip

lemma drain_outbox_prefix:
  "\<exists>new. outbox (dworld (drain now ok cache w)) = outbox w @ new"
  by (induction now ok cache w rule: drain_cases_induct) (auto simp: drain_steps dworld_def)

lemma outbox_posts: "outbox (dworld (drain now ok cache w)) = outbox w @ posts w (dworld (drain now ok cache w))"
  using drain_outbox_prefix [of now ok cache w] by (auto simp: posts_def)

lemma posts_same_outbox: "outbox w2 = outbox w \<Longrightarrow> posts w2 w' = posts w w'"
  by (simp add: posts_def)

lemma posts_step:
  assumes "outbox w2 = outbox w @ xs"
  shows "posts w (dworld (drain now ok cache w2)) = xs @ posts w2 (dworld (drain now ok cache w2))"
proof -
  obtain new where new: "outbox (dworld (drain now ok cache w2)) = outbox w2 @ new"
    using drain_outbox_prefix by blast
  have "posts w2 (dworld (drain now ok cache w2)) = new"
    by (simp add: posts_def new)
  moreover have "posts w (dworld (drain now ok cache w2)) = xs @ new"
    by (simp add: posts_def new assms)
  ultimately show ?thesis by simp
qed

lemma posts_refl [simp]: "posts w w = []"
  by (simp add: posts_def)

lemma posts_snoc [simp]: "posts w (w\<lparr>outbox := outbox w @ xs, delivered := d\<rparr>) = xs"
  by (simp add: posts_def)

text \<open>
  Every message of a run is for a key that the cache did not hold when the run began.
\<close>

lemma drain_posts_fresh:
  "pruned now cache \<Longrightarrow>
   \<forall>e\<in>set (posts w (dworld (drain now ok cache w))). deliveryKey (fst e) \<notin> fst ` set cache"
proof (induction now ok cache w rule: drain_cases_induct)
  case (empty now ok cache w)
  then show ?case by (simp add: drain_empty dworld_def)
next
  case (future now ok cache w job rest)
  then show ?case by (simp add: drain_future dworld_def)
next
  case (purge now ok cache w job rest)
  then show ?case by (simp add: drain_purge posts_same_outbox [of "purge_unknown job w" w])
next
  case (type_error now ok cache w job rest)
  then show ?case by (simp add: drain_type_error dworld_def)
next
  case (fail now ok cache w job rest h)
  then show ?case
    by (simp add: drain_fail [where h = h] dworld_def alreadyDelivered_pruned)
next
  case (send now ok cache w job rest h)
  let ?cache' = "AList.update (deliveryKey job) (JNum now) cache"
  let ?w2 = "remove_or_reschedule now job
      (w\<lparr>outbox := outbox w @ [(job, render h job, True)], delivered := DObject ?cache'\<rparr>)"
  have id: "pruneDelivered ?cache' now = ?cache'"
    using send.prems by (simp add: pruneDelivered_id pruned_update)
  have step: "drain now ok cache w = drain now ok ?cache' ?w2"
    using send.hyps drain_send [of w job rest now cache h ok] by (simp add: id)
  have split: "posts w (dworld (drain now ok ?cache' ?w2)) =
        [(job, render h job, True)] @ posts ?w2 (dworld (drain now ok ?cache' ?w2))"
    by (rule posts_step) simp
  have later: "\<forall>e\<in>set (posts ?w2 (dworld (drain now ok ?cache' ?w2))).
      deliveryKey (fst e) \<notin> fst ` set ?cache'"
    using send.IH send.prems by (simp add: id pruned_update)
  have head: "deliveryKey job \<notin> fst ` set cache"
    using send.hyps send.prems by (simp add: alreadyDelivered_pruned)
  show ?case
    unfolding step split using later head by (simp add: keys_update)
next
  case (skip now ok cache w job rest)
  then show ?case
    by (simp add: drain_skip posts_same_outbox [of "remove_or_reschedule now job w" w])
qed


text \<open>No two messages of a run are for the same key.\<close>

lemma drain_posts_distinct:
  "pruned now cache \<Longrightarrow>
   distinct (map (\<lambda>e. deliveryKey (fst e)) (posts w (dworld (drain now ok cache w))))"
proof (induction now ok cache w rule: drain_cases_induct)
  case (empty now ok cache w)
  then show ?case by (simp add: drain_empty dworld_def)
next
  case (future now ok cache w job rest)
  then show ?case by (simp add: drain_future dworld_def)
next
  case (purge now ok cache w job rest)
  then show ?case by (simp add: drain_purge posts_same_outbox [of "purge_unknown job w" w])
next
  case (type_error now ok cache w job rest)
  then show ?case by (simp add: drain_type_error dworld_def)
next
  case (fail now ok cache w job rest h)
  then show ?case
    by (simp add: drain_fail [where h = h] dworld_def)
next
  case (send now ok cache w job rest h)
  let ?cache' = "AList.update (deliveryKey job) (JNum now) cache"
  let ?w2 = "remove_or_reschedule now job
      (w\<lparr>outbox := outbox w @ [(job, render h job, True)], delivered := DObject ?cache'\<rparr>)"
  have id: "pruneDelivered ?cache' now = ?cache'"
    using send.prems by (simp add: pruneDelivered_id pruned_update)
  have step: "drain now ok cache w = drain now ok ?cache' ?w2"
    using send.hyps drain_send [of w job rest now cache h ok] by (simp add: id)
  have split: "posts w (dworld (drain now ok ?cache' ?w2)) =
        [(job, render h job, True)] @ posts ?w2 (dworld (drain now ok ?cache' ?w2))"
    by (rule posts_step) simp
  have later: "distinct (map (\<lambda>e. deliveryKey (fst e)) (posts ?w2 (dworld (drain now ok ?cache' ?w2))))"
    using send.IH send.prems by (simp add: id pruned_update)
  have "\<forall>e\<in>set (posts ?w2 (dworld (drain now ok ?cache' ?w2))).
      deliveryKey (fst e) \<notin> fst ` set ?cache'"
    using send.prems by (intro drain_posts_fresh) (simp add: pruned_update)
  then have "\<forall>e\<in>set (posts ?w2 (dworld (drain now ok ?cache' ?w2))).
      deliveryKey (fst e) \<noteq> deliveryKey job"
    by (auto simp: keys_update)
  with later show ?case
    unfolding step split by auto
next
  case (skip now ok cache w job rest)
  then show ?case
    by (simp add: drain_skip posts_same_outbox [of "remove_or_reschedule now job w" w])
qed

text \<open>A run that does not end on an answer that is not ok has seen only ok answers.\<close>

lemma drain_posts_ok:
  "(\<forall>w'. drain now ok cache w \<noteq> Inl (DiscordApiError, w')) \<Longrightarrow>
   \<forall>e\<in>set (posts w (dworld (drain now ok cache w))). snd (snd e)"
proof (induction now ok cache w rule: drain_cases_induct)
  case (empty now ok cache w)
  then show ?case by (simp add: drain_empty dworld_def)
next
  case (future now ok cache w job rest)
  then show ?case by (simp add: drain_future dworld_def)
next
  case (purge now ok cache w job rest)
  then show ?case by (simp add: drain_purge posts_same_outbox [of "purge_unknown job w" w])
next
  case (type_error now ok cache w job rest)
  then show ?case by (simp add: drain_type_error dworld_def)
next
  case (fail now ok cache w job rest h)
  then show ?case
    by (simp add: drain_fail [where h = h])
next
  case (send now ok cache w job rest h)
  let ?cache' = "pruneDelivered (AList.update (deliveryKey job) (JNum now) cache) now"
  let ?w2 = "remove_or_reschedule now job
      (w\<lparr>outbox := outbox w @ [(job, render h job, True)], delivered := DObject ?cache'\<rparr>)"
  have step: "drain now ok cache w = drain now ok ?cache' ?w2"
    using send.hyps by (rule drain_send)
  have split: "posts w (dworld (drain now ok ?cache' ?w2)) =
        [(job, render h job, True)] @ posts ?w2 (dworld (drain now ok ?cache' ?w2))"
    by (rule posts_step) simp
  have "\<forall>e\<in>set (posts ?w2 (dworld (drain now ok ?cache' ?w2))). snd (snd e)"
    using send.IH send.prems by (simp add: step)
  then show ?case
    unfolding step split by simp
next
  case (skip now ok cache w job rest)
  then show ?case
    by (simp add: drain_skip posts_same_outbox [of "remove_or_reschedule now job w" w])
qed



subsection \<open>The alarm handler and its drain loop\<close>

definition cache0 :: "int \<Rightarrow> world \<Rightarrow> dcache" where
  "cache0 now w = pruneDelivered (load_delivered (delivered w)) now"

lemma outbox_resync [simp]: "outbox (resync w) = outbox w"
  by (simp add: resync_def split: list.splits)

lemma jobs_resync [simp]: "jobs (resync w) = jobs w"
  by (simp add: resync_def split: list.splits)

lemma delivered_resync [simp]: "delivered (resync w) = delivered w"
  by (simp add: resync_def split: list.splits)

lemma alarm_Inl:
  "alarm now ok w = Inl t \<longleftrightarrow> drain now ok (cache0 now w) w = Inl t"
  by (simp add: alarm_def cache0_def split: sum.splits prod.splits)

lemma alarm_Inr:
  "alarm now ok w = Inr w' \<longleftrightarrow>
   (\<exists>c v. drain now ok (cache0 now w) w = Inr (c, v) \<and>
          w' = resync (v\<lparr>delivered := DObject (pruneDelivered c now)\<rparr>))"
  by (auto simp: alarm_def cache0_def split: sum.splits prod.splits)

lemma outbox_alarm:
  "outbox (world_of (alarm now ok w)) = outbox (dworld (drain now ok (cache0 now w) w))"
  by (simp add: alarm_def cache0_def world_of_def dworld_def split: sum.splits prod.splits)

lemma posts_alarm:
  "posts w (world_of (alarm now ok w)) = posts w (dworld (drain now ok (cache0 now w) w))"
  by (simp add: posts_def outbox_alarm)

lemma jobs_alarm:
  "jobs (world_of (alarm now ok w)) = jobs (dworld (drain now ok (cache0 now w) w))"
  by (simp add: alarm_def cache0_def world_of_def dworld_def split: sum.splits prod.splits)

lemma pruned_cache0: "pruned now (cache0 now w)"
  by (simp add: cache0_def pruned_pruneDelivered)

subsection \<open>The stored jobs along a run\<close>

lemma sort_by_head_least:
  assumes "sort_by_runAtMs xs = y # ys"
  shows "\<forall>x\<in>set xs. runAtMs y \<le> runAtMs x"
proof -
  have "sorted (map runAtMs (y # ys))"
    using assms by (metis sort_by_runAtMs_def sorted_sort_key)
  then have "\<forall>z\<in>set (y # ys). runAtMs y \<le> runAtMs z"
    by auto
  moreover have "set xs = set (y # ys)"
    using assms by (metis set_sort_by)
  ultimately show ?thesis by metis
qed

lemma set_head_rest:
  "sort_by_runAtMs xs = y # ys \<Longrightarrow> set xs = insert y (set ys)"
  by (metis list.simps(15) set_sort_by)

lemma distinct_ids_sort_by [simp]:
  "distinct (map id' (sort_by_runAtMs xs)) = distinct (map id' xs)"
  by (simp add: distinct_map sort_by_runAtMs_def)

lemma id'_advance [simp]: "id' (advance now job) = id' job"
  by (simp add: advance_def split_beta)

lemma doAtType_advance [simp]: "doAtType (advance now job) = doAtType job"
  by (simp add: advance_def split_beta)

lemma set_remove_or_reschedule_head:
  assumes "sort_by_runAtMs (jobs w) = job # rest" and "jobs w' = jobs w"
  shows "set (jobs (remove_or_reschedule now job w')) =
         (if repeatDaily job then insert (advance now job) (set rest) else set rest)"
  using remove_or_reschedule_head [of w' job rest now] assms by simp

lemma distinct_ids_remove_or_reschedule_head:
  assumes "sort_by_runAtMs (jobs w) = job # rest" and "jobs w' = jobs w"
    and "distinct (map id' (jobs w))"
  shows "distinct (map id' (jobs (remove_or_reschedule now job w')))"
proof -
  have "distinct (map id' (job # rest))"
    using assms(1,3) by (metis distinct_ids_sort_by)
  then show ?thesis
    using remove_or_reschedule_head [of w' job rest now] assms(1,2) by auto
qed

lemma splice1_split:
  assumes "i < length xs"
  obtains a b where "xs = a @ xs ! i # b" and "splice1 i xs = a @ b"
proof
  show "xs = take i xs @ xs ! i # drop (Suc i) xs"
    using assms by (rule id_take_nth_drop)
  show "splice1 i xs = take i xs @ drop (Suc i) xs"
    by (simp add: splice1_def)
qed

lemma set_splice1_subset: "set (splice1 i xs) \<subseteq> set xs"
  by (auto simp: splice1_def dest: in_set_takeD in_set_dropD)

lemma set_purge_unknown_subset: "set (jobs (purge_unknown job w)) \<subseteq> set (jobs w)"
proof (cases "findIndex (same_occurrence job) (jobs w)")
  case None
  then show ?thesis by (simp add: purge_unknown_def)
next
  case (Some i)
  then show ?thesis
    using set_splice1_subset [of i "jobs w"] by (simp add: purge_unknown_def)
qed

lemma purge_unknown_distinct_ids:
  assumes "job \<in> set (jobs w)" and "distinct (map id' (jobs w))"
  shows "set (jobs (purge_unknown job w)) = set (jobs w) - {job}"
    and "distinct (map id' (jobs (purge_unknown job w)))"
proof -
  from assms(1) have "findIndex (same_occurrence job) (jobs w) \<noteq> None"
    by (auto simp: findIndex_None same_occurrence_def)
  then obtain i where i: "findIndex (same_occurrence job) (jobs w) = Some i"
    by auto
  from findIndex_Some [OF i] have il: "i < length (jobs w)" and "id' (jobs w ! i) = id' job"
    by (simp_all add: same_occurrence_def)
  then have at: "jobs w ! i = job"
    using assms by (meson distinct_map inj_onD nth_mem)
  have jobs': "jobs (purge_unknown job w) = sort_by_runAtMs (splice1 i (jobs w))"
    using i by (simp add: purge_unknown_def)
  obtain a b where ab: "jobs w = a @ job # b" "splice1 i (jobs w) = a @ b"
    using splice1_split [OF il] at by metis
  have d: "distinct (map id' (a @ job # b))"
    using assms(2) ab(1) by metis
  then have "job \<notin> set a" "job \<notin> set b"
    by (auto simp: image_iff)
  then have "set (a @ b) = set (a @ job # b) - {job}"
    by auto
  then have "set (splice1 i (jobs w)) = set (jobs w) - {job}"
    using ab by metis
  then show "set (jobs (purge_unknown job w)) = set (jobs w) - {job}"
    by (simp add: jobs')
  from d have "distinct (map id' (a @ b))"
    by auto
  then have "distinct (map id' (splice1 i (jobs w)))"
    using ab by metis
  then show "distinct (map id' (jobs (purge_unknown job w)))"
    by (simp add: jobs')
qed

lemma ids_after_transaction:
  assumes "id' job \<noteq> i"
  shows "{x \<in> (if repeatDaily job then insert (advance now job) R else R). id' x = i} =
         {x \<in> insert job R. id' x = i}"
proof (cases "repeatDaily job")
  case True
  have "id' (advance now job) \<noteq> i"
    using assms by simp
  with assms True show ?thesis
    by auto
next
  case False
  with assms show ?thesis
    by auto
qed

text \<open>
  With one job per id, a run leaves alone the job of an id whose job is not due.
\<close>

lemma drain_keeps_future:
  "distinct (map id' (jobs w)) \<Longrightarrow>
   \<forall>x\<in>set (jobs w). id' x = i \<longrightarrow> now < runAtMs x \<Longrightarrow>
   {x \<in> set (jobs (dworld (drain now ok cache w))). id' x = i} = {x \<in> set (jobs w). id' x = i} \<and>
   distinct (map id' (jobs (dworld (drain now ok cache w))))"
proof (induction now ok cache w rule: drain_cases_induct)
  case (empty now ok cache w)
  then show ?case by (simp add: drain_empty dworld_def)
next
  case (future now ok cache w job rest)
  then show ?case by (simp add: drain_future dworld_def)
next
  case (purge now ok cache w job rest)
  have mem: "job \<in> set (jobs w)"
    using purge.hyps(1) by (simp add: set_head_rest)
  with purge.hyps(2) purge.prems(2) have ne: "id' job \<noteq> i"
    by auto
  note pu = purge_unknown_distinct_ids [OF mem purge.prems(1)]
  have same: "{x \<in> set (jobs (purge_unknown job w)). id' x = i} = {x \<in> set (jobs w). id' x = i}"
    using ne by (auto simp: pu(1))
  have fut2: "\<forall>x\<in>set (jobs (purge_unknown job w)). id' x = i \<longrightarrow> now < runAtMs x"
    using purge.prems(2) by (simp add: pu(1))
  have step: "drain now ok cache w = drain now ok cache (purge_unknown job w)"
    using purge.hyps by (rule drain_purge)
  from purge.IH [OF pu(2) fut2] same show ?case
    unfolding step by simp
next
  case (type_error now ok cache w job rest)
  then show ?case by (simp add: drain_type_error dworld_def)
next
  case (fail now ok cache w job rest h)
  then show ?case by (simp add: drain_fail [where h = h] dworld_def)
next
  case (send now ok cache w job rest h)
  let ?cache' = "pruneDelivered (AList.update (deliveryKey job) (JNum now) cache) now"
  let ?w1 = "w\<lparr>outbox := outbox w @ [(job, render h job, True)], delivered := DObject ?cache'\<rparr>"
  let ?w2 = "remove_or_reschedule now job ?w1"
  have step: "drain now ok cache w = drain now ok ?cache' ?w2"
    using send.hyps by (rule drain_send)
  have mem: "job \<in> set (jobs w)"
    using send.hyps(1) by (simp add: set_head_rest)
  with send.hyps(2) send.prems(2) have ne: "id' job \<noteq> i"
    by auto
  have set2: "set (jobs ?w2) =
         (if repeatDaily job then insert (advance now job) (set rest) else set rest)"
    using send.hyps(1) by (rule set_remove_or_reschedule_head) simp
  have d2: "distinct (map id' (jobs ?w2))"
    using send.hyps(1) _ send.prems(1) by (rule distinct_ids_remove_or_reschedule_head) simp
  have same: "{x \<in> set (jobs ?w2). id' x = i} = {x \<in> set (jobs w). id' x = i}"
    unfolding set2 set_head_rest [OF send.hyps(1)] using ne by (rule ids_after_transaction)
  have "now < runAtMs x" if "x \<in> {x \<in> set (jobs ?w2). id' x = i}" for x
    using that send.prems(2) unfolding same by simp
  then have fut2: "\<forall>x\<in>set (jobs ?w2). id' x = i \<longrightarrow> now < runAtMs x"
    by simp
  from send.IH [OF d2 fut2] same show ?case
    unfolding step by simp
next
  case (skip now ok cache w job rest)
  let ?w2 = "remove_or_reschedule now job w"
  have mem: "job \<in> set (jobs w)"
    using skip.hyps(1) by (simp add: set_head_rest)
  with skip.hyps(2) skip.prems(2) have ne: "id' job \<noteq> i"
    by auto
  have set2: "set (jobs ?w2) =
         (if repeatDaily job then insert (advance now job) (set rest) else set rest)"
    using skip.hyps(1) by (rule set_remove_or_reschedule_head) simp
  have d2: "distinct (map id' (jobs ?w2))"
    using skip.hyps(1) _ skip.prems(1) by (rule distinct_ids_remove_or_reschedule_head) simp
  have same: "{x \<in> set (jobs ?w2). id' x = i} = {x \<in> set (jobs w). id' x = i}"
    unfolding set2 set_head_rest [OF skip.hyps(1)] using ne by (rule ids_after_transaction)
  have "now < runAtMs x" if "x \<in> {x \<in> set (jobs ?w2). id' x = i}" for x
    using that skip.prems(2) unfolding same by simp
  then have fut2: "\<forall>x\<in>set (jobs ?w2). id' x = i \<longrightarrow> now < runAtMs x"
    by simp
  have step: "drain now ok cache w = drain now ok cache ?w2"
    using skip.hyps by (rule drain_skip)
  from skip.IH [OF d2 fut2] same show ?case
    unfolding step by simp
qed

text \<open>
  What the second transaction leaves of the id of the first job, with one job per id.
\<close>

lemma after_transaction:
  assumes "sort_by_runAtMs (jobs w) = job # rest" and "jobs w' = jobs w"
    and "distinct (map id' (jobs w))"
  shows "{x \<in> set (jobs (remove_or_reschedule now job w')). id' x = id' job} =
         (if repeatDaily job then {advance now job} else {})"
proof -
  have "distinct (map id' (job # rest))"
    using assms(1,3) by (metis distinct_ids_sort_by)
  then have "id' job \<notin> id' ` set rest"
    by simp
  have none: "{x \<in> set rest. id' x = id' job} = {}"
  proof (rule ccontr)
    assume "{x \<in> set rest. id' x = id' job} \<noteq> {}"
    then obtain x where "x \<in> set rest" "id' x = id' job"
      by blast
    then have "id' job \<in> id' ` set rest"
      by (metis imageI)
    with \<open>id' job \<notin> id' ` set rest\<close> show False
      by contradiction
  qed
  note set2 = set_remove_or_reschedule_head [OF assms(1,2), of now]
  show ?thesis
  proof (cases "repeatDaily job")
    case True
    have "{x \<in> set (jobs (remove_or_reschedule now job w')). id' x = id' job} =
          {x \<in> insert (advance now job) (set rest). id' x = id' job}"
      by (simp only: set2 True if_True)
    also have "\<dots> = insert (advance now job) {x \<in> set rest. id' x = id' job}"
      by auto
    also have "\<dots> = {advance now job}"
      by (simp only: none)
    finally show ?thesis
      by (simp only: True if_True)
  next
    case False
    have "{x \<in> set (jobs (remove_or_reschedule now job w')). id' x = id' job} =
          {x \<in> set rest. id' x = id' job}"
      by (simp only: set2 False if_False)
    also have "\<dots> = {}"
      by (simp only: none)
    finally show ?thesis
      by (simp only: False if_False)
  qed
qed

lemma after_transaction_run:
  assumes "sort_by_runAtMs (jobs w) = job # rest" and "jobs w' = jobs w"
    and "distinct (map id' (jobs w))"
  shows "{x \<in> set (jobs (dworld (drain now ok cache (remove_or_reschedule now job w')))).
            id' x = id' job} =
         (if repeatDaily job then {advance now job} else {})"
proof -
  let ?w2 = "remove_or_reschedule now job w'"
  note at = after_transaction [OF assms, of now]
  have d2: "distinct (map id' (jobs ?w2))"
    using assms by (rule distinct_ids_remove_or_reschedule_head)
  have "now < runAtMs x" if "x \<in> {x \<in> set (jobs ?w2). id' x = id' job}" for x
    using that advance_future [of now job] unfolding at by (simp split: if_splits)
  then have "\<forall>x\<in>set (jobs ?w2). id' x = id' job \<longrightarrow> now < runAtMs x"
    by simp
  from drain_keeps_future [OF d2 this] at show ?thesis
    by simp
qed

text \<open>
  With one job per id: the job of a message that was answered ok has been removed, or
  moved to its next day, by the end of the run.
\<close>

lemma drain_sent_rescheduled:
  "distinct (map id' (jobs w)) \<Longrightarrow>
   (j, m, True) \<in> set (posts w (dworld (drain now ok cache w))) \<Longrightarrow>
   {x \<in> set (jobs (dworld (drain now ok cache w))). id' x = id' j} =
     (if repeatDaily j then {advance now j} else {})"
proof (induction now ok cache w rule: drain_cases_induct)
  case (empty now ok cache w)
  then show ?case by (simp add: drain_empty dworld_def)
next
  case (future now ok cache w job rest)
  then show ?case by (simp add: drain_future dworld_def)
next
  case (purge now ok cache w job rest)
  have mem: "job \<in> set (jobs w)"
    using purge.hyps(1) by (simp add: set_head_rest)
  note pu = purge_unknown_distinct_ids [OF mem purge.prems(1)]
  have step: "drain now ok cache w = drain now ok cache (purge_unknown job w)"
    using purge.hyps by (rule drain_purge)
  from purge.prems(2) have "(j, m, True) \<in> set (posts (purge_unknown job w)
      (dworld (drain now ok cache (purge_unknown job w))))"
    by (simp add: step posts_same_outbox [of "purge_unknown job w" w])
  from purge.IH [OF pu(2) this] show ?case
    by (simp add: step)
next
  case (type_error now ok cache w job rest)
  then show ?case by (simp add: drain_type_error dworld_def)
next
  case (fail now ok cache w job rest h)
  then show ?case by (simp add: drain_fail [where h = h] dworld_def)
next
  case (send now ok cache w job rest h)
  let ?cache' = "pruneDelivered (AList.update (deliveryKey job) (JNum now) cache) now"
  let ?w1 = "w\<lparr>outbox := outbox w @ [(job, render h job, True)], delivered := DObject ?cache'\<rparr>"
  let ?w2 = "remove_or_reschedule now job ?w1"
  have step: "drain now ok cache w = drain now ok ?cache' ?w2"
    using send.hyps by (rule drain_send)
  have split: "posts w (dworld (drain now ok ?cache' ?w2)) =
        [(job, render h job, True)] @ posts ?w2 (dworld (drain now ok ?cache' ?w2))"
    by (rule posts_step) simp
  have d2: "distinct (map id' (jobs ?w2))"
    using send.hyps(1) _ send.prems(1) by (rule distinct_ids_remove_or_reschedule_head) simp
  from send.prems(2) have "j = job \<or> (j, m, True) \<in> set (posts ?w2 (dworld (drain now ok ?cache' ?w2)))"
    by (auto simp: step split)
  then show ?case
  proof
    assume "j = job"
    then show ?thesis
      unfolding step
      using after_transaction_run [OF send.hyps(1) _ send.prems(1), of ?w1 now ok ?cache']
      by simp
  next
    assume "(j, m, True) \<in> set (posts ?w2 (dworld (drain now ok ?cache' ?w2)))"
    from send.IH [OF d2 this] show ?thesis
      by (simp add: step)
  qed
next
  case (skip now ok cache w job rest)
  let ?w2 = "remove_or_reschedule now job w"
  have step: "drain now ok cache w = drain now ok cache ?w2"
    using skip.hyps by (rule drain_skip)
  have d2: "distinct (map id' (jobs ?w2))"
    using skip.hyps(1) _ skip.prems(1) by (rule distinct_ids_remove_or_reschedule_head) simp
  from skip.prems(2) have "(j, m, True) \<in> set (posts ?w2 (dworld (drain now ok cache ?w2)))"
    by (simp add: step posts_same_outbox [of ?w2 w])
  from skip.IH [OF d2 this] show ?case
    by (simp add: step)
qed

text \<open>
  With one job per id: a due job whose key the cache holds has been removed, or moved to
  its next day, by the end of a run that completes.
\<close>

lemma drain_skipped_rescheduled:
  "distinct (map id' (jobs w)) \<Longrightarrow> pruned now cache \<Longrightarrow>
   j \<in> set (jobs w) \<Longrightarrow> runAtMs j \<le> now \<Longrightarrow> deliveryKey j \<in> fst ` set cache \<Longrightarrow>
   drain now ok cache w = Inr (c', w') \<Longrightarrow>
   {x \<in> set (jobs w'). id' x = id' j} = (if repeatDaily j then {advance now j} else {})"
proof (induction now ok cache w rule: drain_cases_induct)
  case (empty now ok cache w)
  then show ?case by simp
next
  case (future now ok cache w job rest)
  from sort_by_head_least [OF future.hyps(1)] future.prems(3) have "runAtMs job \<le> runAtMs j"
    by simp
  with future.hyps(2) future.prems(4) show ?case
    by simp
next
  case (purge now ok cache w job rest)
  have mem: "job \<in> set (jobs w)"
    using purge.hyps(1) by (simp add: set_head_rest)
  note pu = purge_unknown_distinct_ids [OF mem purge.prems(1)]
  have step: "drain now ok cache w = drain now ok cache (purge_unknown job w)"
    using purge.hyps by (rule drain_purge)
  have "alreadyDelivered cache (deliveryKey j)"
    using purge.prems(2,5) by (simp add: alreadyDelivered_pruned)
  with purge.hyps(3) have "j \<noteq> job"
    by auto
  with purge.prems(3) have "j \<in> set (jobs (purge_unknown job w))"
    by (simp add: pu(1))
  from purge.IH [OF pu(2) purge.prems(2) this purge.prems(4,5)] purge.prems(6) show ?case
    by (simp add: step)
next
  case (type_error now ok cache w job rest)
  then show ?case by (simp add: drain_type_error)
next
  case (fail now ok cache w job rest h)
  then show ?case by (simp add: drain_fail [where h = h])
next
  case (send now ok cache w job rest h)
  let ?cache' = "pruneDelivered (AList.update (deliveryKey job) (JNum now) cache) now"
  let ?w1 = "w\<lparr>outbox := outbox w @ [(job, render h job, True)], delivered := DObject ?cache'\<rparr>"
  let ?w2 = "remove_or_reschedule now job ?w1"
  have step: "drain now ok cache w = drain now ok ?cache' ?w2"
    using send.hyps by (rule drain_send)
  have id: "?cache' = AList.update (deliveryKey job) (JNum now) cache"
    using send.prems(2) by (simp add: pruneDelivered_id pruned_update)
  have d2: "distinct (map id' (jobs ?w2))"
    using send.hyps(1) _ send.prems(1) by (rule distinct_ids_remove_or_reschedule_head) simp
  have p2: "pruned now ?cache'"
    by (rule pruned_pruneDelivered)
  have "alreadyDelivered cache (deliveryKey j)"
    using send.prems(2,5) by (simp add: alreadyDelivered_pruned)
  with send.hyps(3) have "j \<noteq> job"
    by auto
  with send.prems(3) have "j \<in> set rest"
    by (simp add: set_head_rest [OF send.hyps(1)])
  then have j2: "j \<in> set (jobs ?w2)"
    using set_remove_or_reschedule_head [OF send.hyps(1), of ?w1 now] by simp
  have k2: "deliveryKey j \<in> fst ` set ?cache'"
    using send.prems(5) by (simp only: id keys_update) simp
  from send.IH [OF d2 p2 j2 send.prems(4) k2] send.prems(6) show ?case
    by (simp add: step)
next
  case (skip now ok cache w job rest)
  let ?w2 = "remove_or_reschedule now job w"
  have step: "drain now ok cache w = drain now ok cache ?w2"
    using skip.hyps by (rule drain_skip)
  have d2: "distinct (map id' (jobs ?w2))"
    using skip.hyps(1) _ skip.prems(1) by (rule distinct_ids_remove_or_reschedule_head) simp
  show ?case
  proof (cases "j = job")
    case True
    have "dworld (drain now ok cache ?w2) = w'"
      using skip.prems(6) by (simp add: step dworld_def)
    with after_transaction_run [OF skip.hyps(1) _ skip.prems(1), of w now ok cache] True
    show ?thesis
      by simp
  next
    case False
    with skip.prems(3) have "j \<in> set rest"
      by (simp add: set_head_rest [OF skip.hyps(1)])
    then have j2: "j \<in> set (jobs ?w2)"
      using set_remove_or_reschedule_head [OF skip.hyps(1), of w now] by simp
    from skip.IH [OF d2 skip.prems(2) j2 skip.prems(4,5)] skip.prems(6) show ?thesis
      by (simp add: step)
  qed
qed

text \<open>A run that completes leaves no job that is due.\<close>

lemma drain_Inr_no_due:
  "drain now ok cache w = Inr (c', w') \<Longrightarrow> \<forall>x\<in>set (jobs w'). now < runAtMs x"
proof (induction now ok cache w rule: drain_cases_induct)
  case (empty now ok cache w)
  then show ?case by (simp add: drain_empty)
next
  case (future now ok cache w job rest)
  from future have "w' = w"
    by (simp add: drain_future)
  with sort_by_head_least [OF future.hyps(1)] future.hyps(2) show ?case
    by fastforce
next
  case (purge now ok cache w job rest)
  then show ?case by (simp add: drain_purge)
next
  case (type_error now ok cache w job rest)
  then show ?case by (simp add: drain_type_error)
next
  case (fail now ok cache w job rest h)
  then show ?case by (simp add: drain_fail [where h = h])
next
  case (send now ok cache w job rest h)
  then show ?case by (simp add: drain_send [where h = h])
next
  case (skip now ok cache w job rest)
  then show ?case by (simp add: drain_skip)
qed

text \<open>
  When every answer is ok and no stored type reads as an inherited property, the run
  completes.
\<close>

lemma drain_all_ok:
  "\<forall>n. ok n \<Longrightarrow> \<forall>x\<in>set (jobs w). doAtTypeHandlers (doAtType x) \<noteq> Inherited \<Longrightarrow>
   \<exists>c' w'. drain now ok cache w = Inr (c', w')"
proof (induction now ok cache w rule: drain_cases_induct)
  case (empty now ok cache w)
  then show ?case by (simp add: drain_empty)
next
  case (future now ok cache w job rest)
  then show ?case by (simp add: drain_future)
next
  case (purge now ok cache w job rest)
  have "\<forall>x\<in>set (jobs (purge_unknown job w)). doAtTypeHandlers (doAtType x) \<noteq> Inherited"
    using purge.prems(2) set_purge_unknown_subset [of job w] by blast
  from purge.IH [OF purge.prems(1) this] show ?case
    unfolding drain_purge [OF purge.hyps] .
next
  case (type_error now ok cache w job rest)
  have "job \<in> set (jobs w)"
    using type_error.hyps(1) by (simp add: set_head_rest)
  with type_error show ?case by auto
next
  case (fail now ok cache w job rest h)
  then show ?case by simp
next
  case (send now ok cache w job rest h)
  let ?cache' = "pruneDelivered (AList.update (deliveryKey job) (JNum now) cache) now"
  let ?w1 = "w\<lparr>outbox := outbox w @ [(job, render h job, True)], delivered := DObject ?cache'\<rparr>"
  let ?w2 = "remove_or_reschedule now job ?w1"
  have step: "drain now ok cache w = drain now ok ?cache' ?w2"
    using send.hyps by (rule drain_send)
  have sub: "set (jobs ?w2) \<subseteq> insert (advance now job) (set (jobs w))"
    using set_remove_or_reschedule_head [OF send.hyps(1), of ?w1 now]
      set_head_rest [OF send.hyps(1)] by auto
  have mem: "job \<in> set (jobs w)"
    using send.hyps(1) by (simp add: set_head_rest)
  have "\<forall>x\<in>set (jobs ?w2). doAtTypeHandlers (doAtType x) \<noteq> Inherited"
  proof
    fix x
    assume "x \<in> set (jobs ?w2)"
    with sub have "x = advance now job \<or> x \<in> set (jobs w)"
      by blast
    then show "doAtTypeHandlers (doAtType x) \<noteq> Inherited"
    proof
      assume "x = advance now job"
      with send.prems(2) mem show ?thesis
        by simp
    next
      assume "x \<in> set (jobs w)"
      with send.prems(2) show ?thesis
        by simp
    qed
  qed
  from send.IH [OF send.prems(1) this] show ?case
    by (subst step)
next
  case (skip now ok cache w job rest)
  let ?w2 = "remove_or_reschedule now job w"
  have step: "drain now ok cache w = drain now ok cache ?w2"
    using skip.hyps by (rule drain_skip)
  have sub: "set (jobs ?w2) \<subseteq> insert (advance now job) (set (jobs w))"
    using set_remove_or_reschedule_head [OF skip.hyps(1), of w now]
      set_head_rest [OF skip.hyps(1)] by auto
  have mem: "job \<in> set (jobs w)"
    using skip.hyps(1) by (simp add: set_head_rest)
  have "\<forall>x\<in>set (jobs ?w2). doAtTypeHandlers (doAtType x) \<noteq> Inherited"
  proof
    fix x
    assume "x \<in> set (jobs ?w2)"
    with sub have "x = advance now job \<or> x \<in> set (jobs w)"
      by blast
    then show "doAtTypeHandlers (doAtType x) \<noteq> Inherited"
    proof
      assume "x = advance now job"
      with skip.prems(2) mem show ?thesis
        by simp
    next
      assume "x \<in> set (jobs w)"
      with skip.prems(2) show ?thesis
        by simp
    qed
  qed
  from skip.IH [OF skip.prems(1) this] show ?case
    by (subst step)
qed

text \<open>
  The cache holds key \<open>k\<close>, and holds nothing for it but the time \<open>now\<close>.
\<close>

definition recorded :: "int \<Rightarrow> dcache \<Rightarrow> string \<Rightarrow> bool" where
  "recorded now cache k = (k \<in> fst ` set cache \<and> (\<forall>v. (k, v) \<in> set cache \<longrightarrow> v = JNum now))"

lemma recorded_update_same:
  assumes "k \<notin> fst ` set cache"
  shows "recorded now (AList.update k (JNum now) cache) k"
proof -
  have s: "set (AList.update k (JNum now) cache) = insert (k, JNum now) (set cache)"
    using assms by (rule set_update_new)
  have "v = JNum now" if "(k, v) \<in> set (AList.update k (JNum now) cache)" for v
  proof -
    from that have "(k, v) = (k, JNum now) \<or> (k, v) \<in> set cache"
      unfolding s by simp
    moreover have "(k, v) \<notin> set cache"
      using assms by (metis fst_conv imageI)
    ultimately show ?thesis
      by simp
  qed
  then show ?thesis
    by (simp add: recorded_def keys_update)
qed

lemma recorded_update_other:
  assumes "recorded now cache k"
  shows "recorded now (AList.update k' (JNum now) cache) k"
proof -
  have "v = JNum now" if "(k, v) \<in> set (AList.update k' (JNum now) cache)" for v
  proof -
    from that set_update_subset [of k' "JNum now" cache]
    have "(k, v) = (k', JNum now) \<or> (k, v) \<in> set cache"
      by auto
    with assms show ?thesis
      by (auto simp: recorded_def)
  qed
  with assms show ?thesis
    by (simp add: recorded_def keys_update)
qed

lemma recorded_survives_prune:
  assumes "recorded now cache k" and "now2 \<le> now + DELIVERED_TTL_MS"
  shows "k \<in> fst ` set (pruneDelivered cache now2)"
proof -
  from assms(1) obtain v where v: "(k, v) \<in> set cache"
    by (auto simp: recorded_def)
  have "kept now2 (JNum now)"
    using assms(2) by (simp add: kept_def typeof_number_def num_less_def)
  with assms(1) have "\<not> (\<exists>v'. (k, v') \<in> set cache \<and> \<not> kept now2 v')"
    by (auto simp: recorded_def)
  with v have "(k, v) \<in> set (pruneDelivered cache now2)"
    unfolding pruneDelivered_general by simp
  then show ?thesis
    by force
qed

text \<open>
  Once the stored cache is the cache in memory, it stays so, and what it has recorded
  stays recorded.
\<close>

lemma drain_persisted:
  "pruned now cache \<Longrightarrow> delivered w = DObject cache \<Longrightarrow>
   \<exists>cf. delivered (dworld (drain now ok cache w)) = DObject cf \<and> pruned now cf \<and>
        (\<forall>k. recorded now cache k \<longrightarrow> recorded now cf k) \<and>
        (\<forall>c v. drain now ok cache w = Inr (c, v) \<longrightarrow> c = cf)"
proof (induction now ok cache w rule: drain_cases_induct)
  case (empty now ok cache w)
  then show ?case by (simp add: drain_empty dworld_def)
next
  case (future now ok cache w job rest)
  then show ?case by (simp add: drain_future dworld_def)
next
  case (purge now ok cache w job rest)
  have step: "drain now ok cache w = drain now ok cache (purge_unknown job w)"
    using purge.hyps by (rule drain_purge)
  from purge.IH [OF purge.prems(1)] purge.prems(2) show ?case
    by (subst (1 2) step) simp
next
  case (type_error now ok cache w job rest)
  then show ?case by (simp add: drain_type_error dworld_def)
next
  case (fail now ok cache w job rest h)
  then show ?case
    by (simp add: drain_fail [where h = h] dworld_def pruneDelivered_id)
next
  case (send now ok cache w job rest h)
  let ?cache' = "pruneDelivered (AList.update (deliveryKey job) (JNum now) cache) now"
  let ?w1 = "w\<lparr>outbox := outbox w @ [(job, render h job, True)], delivered := DObject ?cache'\<rparr>"
  let ?w2 = "remove_or_reschedule now job ?w1"
  have step: "drain now ok cache w = drain now ok ?cache' ?w2"
    using send.hyps by (rule drain_send)
  have id: "?cache' = AList.update (deliveryKey job) (JNum now) cache"
    using send.prems(1) by (simp add: pruneDelivered_id pruned_update)
  have p2: "pruned now ?cache'"
    by (rule pruned_pruneDelivered)
  have "delivered ?w2 = DObject ?cache'"
    by simp
  from send.IH [OF p2 this] obtain cf where
    cf: "delivered (dworld (drain now ok ?cache' ?w2)) = DObject cf" "pruned now cf"
      "\<forall>k. recorded now ?cache' k \<longrightarrow> recorded now cf k"
      "\<forall>c v. drain now ok ?cache' ?w2 = Inr (c, v) \<longrightarrow> c = cf"
    by blast
  have "\<forall>k. recorded now cache k \<longrightarrow> recorded now cf k"
    using cf(3) recorded_update_other [of now cache _ "deliveryKey job"]
    by (simp only: id) blast
  with cf(1,2,4) show ?case
    by (subst (1 2) step) blast
next
  case (skip now ok cache w job rest)
  have step: "drain now ok cache w = drain now ok cache (remove_or_reschedule now job w)"
    using skip.hyps by (rule drain_skip)
  from skip.IH [OF skip.prems(1)] skip.prems(2) show ?case
    by (subst (1 2) step) simp
qed

text \<open>The key of a message that was answered ok is recorded in the stored cache.\<close>

lemma drain_sent_recorded:
  "pruned now cache \<Longrightarrow> (j, m, True) \<in> set (posts w (dworld (drain now ok cache w))) \<Longrightarrow>
   \<exists>cf. delivered (dworld (drain now ok cache w)) = DObject cf \<and> pruned now cf \<and>
        recorded now cf (deliveryKey j) \<and>
        (\<forall>c v. drain now ok cache w = Inr (c, v) \<longrightarrow> c = cf)"
proof (induction now ok cache w rule: drain_cases_induct)
  case (empty now ok cache w)
  then show ?case by (simp add: drain_empty dworld_def)
next
  case (future now ok cache w job rest)
  then show ?case by (simp add: drain_future dworld_def)
next
  case (purge now ok cache w job rest)
  have step: "drain now ok cache w = drain now ok cache (purge_unknown job w)"
    using purge.hyps by (rule drain_purge)
  from purge.prems(2) have "(j, m, True) \<in> set (posts (purge_unknown job w)
      (dworld (drain now ok cache (purge_unknown job w))))"
    by (simp add: step posts_same_outbox [of "purge_unknown job w" w])
  from purge.IH [OF purge.prems(1) this] show ?case
    by (subst (1 2) step)
next
  case (type_error now ok cache w job rest)
  then show ?case by (simp add: drain_type_error dworld_def)
next
  case (fail now ok cache w job rest h)
  then show ?case by (simp add: drain_fail [where h = h] dworld_def)
next
  case (send now ok cache w job rest h)
  let ?cache' = "pruneDelivered (AList.update (deliveryKey job) (JNum now) cache) now"
  let ?w1 = "w\<lparr>outbox := outbox w @ [(job, render h job, True)], delivered := DObject ?cache'\<rparr>"
  let ?w2 = "remove_or_reschedule now job ?w1"
  have step: "drain now ok cache w = drain now ok ?cache' ?w2"
    using send.hyps by (rule drain_send)
  have id: "?cache' = AList.update (deliveryKey job) (JNum now) cache"
    using send.prems(1) by (simp add: pruneDelivered_id pruned_update)
  have p2: "pruned now ?cache'"
    by (rule pruned_pruneDelivered)
  have split: "posts w (dworld (drain now ok ?cache' ?w2)) =
        [(job, render h job, True)] @ posts ?w2 (dworld (drain now ok ?cache' ?w2))"
    by (rule posts_step) simp
  from send.prems(2) have "j = job \<or> (j, m, True) \<in> set (posts ?w2 (dworld (drain now ok ?cache' ?w2)))"
    by (auto simp: step split)
  then show ?case
  proof
    assume j: "j = job"
    have "deliveryKey job \<notin> fst ` set cache"
      using send.hyps(3) send.prems(1) by (simp add: alreadyDelivered_pruned)
    then have "recorded now (AList.update (deliveryKey job) (JNum now) cache) (deliveryKey job)"
      by (rule recorded_update_same)
    then have rec: "recorded now ?cache' (deliveryKey job)"
      by (simp only: id)
    have "delivered ?w2 = DObject ?cache'"
      by simp
    from drain_persisted [OF p2 this, of ok] rec j show ?thesis
      by (subst (1 2) step) blast
  next
    assume "(j, m, True) \<in> set (posts ?w2 (dworld (drain now ok ?cache' ?w2)))"
    from send.IH [OF p2 this] show ?thesis
      by (subst (1 2) step)
  qed
next
  case (skip now ok cache w job rest)
  let ?w2 = "remove_or_reschedule now job w"
  have step: "drain now ok cache w = drain now ok cache ?w2"
    using skip.hyps by (rule drain_skip)
  from skip.prems(2) have "(j, m, True) \<in> set (posts ?w2 (dworld (drain now ok cache ?w2)))"
    by (simp add: step posts_same_outbox [of ?w2 w])
  from skip.IH [OF skip.prems(1) this] show ?case
    by (subst (1 2) step)
qed

lemma count_distinct_key:
  assumes "distinct (map f xs)" and "x \<in> set xs"
  shows "length (filter (\<lambda>e. f e = f x) xs) = 1"
  using assms
proof (induction xs)
  case Nil
  then show ?case by simp
next
  case (Cons a xs)
  show ?case
  proof (cases "a = x")
    case True
    have "filter (\<lambda>e. f e = f x) xs = []"
    proof (rule ccontr)
      assume "filter (\<lambda>e. f e = f x) xs \<noteq> []"
      then obtain e where "e \<in> set xs" "f e = f x"
        by (metis (mono_tags, lifting) filter_False)
      then have "f x \<in> f ` set xs"
        by (metis imageI)
      with Cons.prems(1) True show False
        by simp
    qed
    with True show ?thesis by simp
  next
    case False
    with Cons.prems have x: "x \<in> set xs" by simp
    then have "f x \<in> f ` set xs"
      by (rule imageI)
    with Cons.prems(1) have "f a \<noteq> f x"
      by auto
    with Cons.IH x Cons.prems(1) show ?thesis
      by simp
  qed
qed

lemma drain_distinct_ids:
  assumes "distinct (map id' (jobs w))"
  shows "distinct (map id' (jobs (dworld (drain now ok cache w))))"
proof -
  have "finite (id' ` set (jobs w))"
    by simp
  then obtain i where i: "i \<notin> id' ` set (jobs w)"
    using ex_new_if_finite infinite_UNIV_listI by blast
  then have "\<forall>x\<in>set (jobs w). id' x = i \<longrightarrow> now < runAtMs x"
    by (metis imageI)
  from drain_keeps_future [OF assms this] show ?thesis
    by simp
qed

lemma recorded_map_of: "recorded now cf k \<Longrightarrow> map_of cf k = Some (JNum now)"
proof -
  assume r: "recorded now cf k"
  then have "k \<in> fst ` set cf"
    by (simp add: recorded_def)
  then obtain v where v: "map_of cf k = Some v"
    by (metis domD dom_map_of_conv_image_fst)
  then have "(k, v) \<in> set cf"
    by (rule map_of_SomeD)
  with r have "v = JNum now"
    by (simp add: recorded_def)
  with v show ?thesis by simp
qed

text \<open>
  The stored cache after an invocation in which a message for \<open>j\<close> was answered ok.
\<close>

lemma alarm_sent_recorded:
  assumes "(j, m, True) \<in> set (posts w (world_of (alarm now ok w)))"
  shows "\<exists>cf. delivered (world_of (alarm now ok w)) = DObject cf \<and>
              recorded now cf (deliveryKey j)"
proof -
  let ?r = "drain now ok (cache0 now w) w"
  have sent: "(j, m, True) \<in> set (posts w (dworld ?r))"
    using assms by (simp add: posts_alarm)
  from drain_sent_recorded [OF pruned_cache0 sent] obtain cf where
    cf: "delivered (dworld ?r) = DObject cf" "pruned now cf" "recorded now cf (deliveryKey j)"
      "\<forall>c v. ?r = Inr (c, v) \<longrightarrow> c = cf"
    by blast
  have "delivered (world_of (alarm now ok w)) = DObject cf"
  proof (cases ?r)
    case (Inl t)
    then have "alarm now ok w = Inl t"
      by (simp add: alarm_Inl)
    with Inl cf(1) show ?thesis
      by (simp add: world_of_def dworld_def split: prod.splits)
  next
    case (Inr p)
    obtain c v where p: "p = (c, v)" by (cases p)
    with Inr cf(4) have c: "c = cf" by simp
    have "alarm now ok w = Inr (resync (v\<lparr>delivered := DObject (pruneDelivered c now)\<rparr>))"
      using Inr p by (simp add: alarm_Inr)
    then show ?thesis
      using cf(2) c by (simp add: world_of_def pruneDelivered_id)
  qed
  with cf(3) show ?thesis by blast
qed

lemma live_key_in_cache0:
  assumes "delivered w = DObject c0" and "distinct (map fst c0)"
    and "map_of c0 k = Some (JNum t)" and "now - DELIVERED_TTL_MS \<le> t"
  shows "k \<in> fst ` set (cache0 now w)"
proof -
  have "(k, JNum t) \<in> set c0"
    using assms(3) by (rule map_of_SomeD)
  moreover have "typeof_number (JNum t) \<and> \<not> num_less (JNum t) (now - DELIVERED_TTL_MS)"
    using assms(4) by (simp add: typeof_number_def num_less_def)
  ultimately have "(k, JNum t) \<in> set (cache0 now w)"
    by (simp add: cache0_def load_delivered_def assms(1) pruneDelivered_filter [OF assms(2)])
  then show ?thesis
    by force
qed

lemma alarm_skip_head:
  assumes "sort_by_runAtMs (jobs w) = job # rest" and "runAtMs job \<le> now"
    and "deliveryKey job \<in> fst ` set (cache0 now w)"
  shows "alarm now ok w = alarm now ok (remove_or_reschedule now job w)"
proof -
  have "alreadyDelivered (cache0 now w) (deliveryKey job)"
    using assms(3) by (simp add: alreadyDelivered_pruned [OF pruned_cache0])
  with assms(1,2)
  have "drain now ok (cache0 now w) w = drain now ok (cache0 now w) (remove_or_reschedule now job w)"
    by (rule drain_skip)
  moreover have "cache0 now (remove_or_reschedule now job w) = cache0 now w"
    by (simp add: cache0_def)
  ultimately show ?thesis
    by (simp add: alarm_def cache0_def)
qed

subsection \<open>Stored numbers that are \<^verbatim>\<open>NaN\<close>\<close>

text \<open>
  \<^verbatim>\<open>/schedule\<close> stores \<^verbatim>\<open>Number(job.scheduledUnix)\<close> and its product with 1000, whatever
  the body holds: for a body without the field, or with a text that is no numeral, both
  are \<^verbatim>\<open>NaN\<close>. The worker rejects a timestamp that is no finite integer before it posts
  the body; the handler has no such test, and the comment on its normalisation says that
  it does not trust its input. The sections above take the two stored numbers of a job to
  be integers. This section embeds the alarm handler once more, for stored jobs whose
  numbers are integers or \<^verbatim>\<open>NaN\<close> (infinite and fractional values are left out), with the
  comparisons, the strict equality and the sum of JavaScript.
\<close>

datatype number = Num int | NaN

text \<open>\<^verbatim>\<open>a > b\<close> and \<^verbatim>\<open>a <= b\<close>: every comparison with \<^verbatim>\<open>NaN\<close> is false.\<close>

definition num_gt :: "number \<Rightarrow> int \<Rightarrow> bool" where
  "num_gt a b = (case a of Num i \<Rightarrow> i > b | NaN \<Rightarrow> False)"

definition num_le :: "number \<Rightarrow> int \<Rightarrow> bool" where
  "num_le a b = (case a of Num i \<Rightarrow> i \<le> b | NaN \<Rightarrow> False)"

text \<open>\<^verbatim>\<open>a === b\<close> on numbers: \<^verbatim>\<open>NaN\<close> is not equal to itself.\<close>

definition strict_equal :: "number \<Rightarrow> number \<Rightarrow> bool" where
  "strict_equal a b = (case a of Num i \<Rightarrow> (case b of Num j \<Rightarrow> i = j | NaN \<Rightarrow> False) | NaN \<Rightarrow> False)"

text \<open>\<^verbatim>\<open>a + k\<close>, \<^verbatim>\<open>a * k\<close> and \<^verbatim>\<open>a - b\<close>: \<^verbatim>\<open>NaN\<close> in, \<^verbatim>\<open>NaN\<close> out.\<close>

definition num_plus :: "number \<Rightarrow> int \<Rightarrow> number" where
  "num_plus a k = (case a of Num i \<Rightarrow> Num (i + k) | NaN \<Rightarrow> NaN)"

definition num_times :: "number \<Rightarrow> int \<Rightarrow> number" where
  "num_times a k = (case a of Num i \<Rightarrow> Num (i * k) | NaN \<Rightarrow> NaN)"

definition num_minus :: "number \<Rightarrow> number \<Rightarrow> number" where
  "num_minus a b = (case a of Num i \<Rightarrow> (case b of Num j \<Rightarrow> Num (i - j) | NaN \<Rightarrow> NaN) | NaN \<Rightarrow> NaN)"

text \<open>The text of a number in a template literal.\<close>

definition show_number :: "number \<Rightarrow> string" where
  "show_number a = (case a of Num i \<Rightarrow> show_int i | NaN \<Rightarrow> ''NaN'')"

record stored_job =
  s_id :: string
  s_guildId :: string
  s_channelId :: string
  s_doAtType :: string
  s_doAtSubject :: string
  s_scheduledUnix :: number
  s_runAtMs :: number
  s_repeatDaily :: bool
  s_createdBy :: "string option"

definition s_innerContent :: "handler \<Rightarrow> stored_job \<Rightarrow> string" where
  "s_innerContent h j =
     (case h of
        PingRole \<Rightarrow> ''<@&'' @ s_doAtSubject j @ ''>''
      | PingUser \<Rightarrow> ''<@'' @ s_doAtSubject j @ ''>''
      | ChannelMessage \<Rightarrow> s_doAtSubject j)"

definition s_allowedMentions :: "handler \<Rightarrow> stored_job \<Rightarrow> mentions" where
  "s_allowedMentions h j =
     (case h of
        PingRole \<Rightarrow> Roles [s_doAtSubject j]
      | PingUser \<Rightarrow> Users [s_doAtSubject j]
      | ChannelMessage \<Rightarrow> ParseNone)"

definition s_outerContent :: "handler \<Rightarrow> stored_job \<Rightarrow> string \<Rightarrow> string" where
  "s_outerContent h j inner =
     (case h of
        PingRole \<Rightarrow>
          inner @ '' (scheduled role ping for <t:'' @ show_number (s_scheduledUnix j) @ '':F>)''
      | PingUser \<Rightarrow>
          inner @ '' (scheduled user ping for <t:'' @ show_number (s_scheduledUnix j) @ '':F>)''
      | ChannelMessage \<Rightarrow> inner)"

definition s_render :: "handler \<Rightarrow> stored_job \<Rightarrow> message" where
  "s_render h j =
     \<lparr>channel = s_channelId j,
      content = s_outerContent h j (s_innerContent h j),
      allowed_mentions = s_allowedMentions h j\<rparr>"

definition s_deliveryKey :: "stored_job \<Rightarrow> string" where
  "s_deliveryKey j = s_id j @ '':'' @ show_number (s_scheduledUnix j)"

record stored_world =
  s_jobs :: "stored_job list"
  s_delivered :: stored_delivered
  s_alarm_at :: "number option"
  s_outbox :: "(stored_job \<times> message \<times> bool) list"

text \<open>
  \<^verbatim>\<open>xs.sort((a, b) => a.runAtMs - b.runAtMs)\<close>. The sort reads a comparator value that is
  \<^verbatim>\<open>NaN\<close> as \<open>0\<close>. For a list without \<^verbatim>\<open>NaN\<close> the result is the stable sort on
  \<open>s_runAtMs\<close>; for a list of one job it is the list. For longer lists that hold \<^verbatim>\<open>NaN\<close> the
  comparator is not consistent and the language leaves the order to the engine: the
  insertion order taken here is one of the orders an engine may produce, and no statement
  below depends on it.
\<close>

definition sort_compare :: "stored_job \<Rightarrow> stored_job \<Rightarrow> int" where
  "sort_compare a b = (case num_minus (s_runAtMs a) (s_runAtMs b) of Num d \<Rightarrow> d | NaN \<Rightarrow> 0)"

fun s_insert :: "stored_job \<Rightarrow> stored_job list \<Rightarrow> stored_job list" where
  "s_insert x [] = [x]"
| "s_insert x (y # ys) = (if sort_compare x y > 0 then y # s_insert x ys else x # y # ys)"

definition s_sort_by_runAtMs :: "stored_job list \<Rightarrow> stored_job list" where
  "s_sort_by_runAtMs xs = foldr s_insert xs []"

definition s_resync :: "stored_world \<Rightarrow> stored_world" where
  "s_resync w =
     (case s_sort_by_runAtMs (s_jobs w) of
        [] \<Rightarrow> w\<lparr>s_alarm_at := None\<rparr>
      | next # _ \<Rightarrow> w\<lparr>s_alarm_at := Some (s_runAtMs next)\<rparr>)"

text \<open>
  The match \<^verbatim>\<open>j.id === job.id && j.scheduledUnix === job.scheduledUnix\<close>: a job whose
  \<open>s_scheduledUnix\<close> is \<^verbatim>\<open>NaN\<close> matches no job, itself included.
\<close>

definition s_same_occurrence :: "stored_job \<Rightarrow> stored_job \<Rightarrow> bool" where
  "s_same_occurrence job j =
     (s_id j = s_id job \<and> strict_equal (s_scheduledUnix j) (s_scheduledUnix job))"

definition s_purge_unknown :: "stored_job \<Rightarrow> stored_world \<Rightarrow> stored_world" where
  "s_purge_unknown job w =
     (let curJobs = s_jobs w in
      case findIndex (s_same_occurrence job) curJobs of
        None \<Rightarrow> w
      | Some idx \<Rightarrow> w\<lparr>s_jobs := s_sort_by_runAtMs (splice1 idx curJobs)\<rparr>)"

text \<open>
  The catch-up loop \<^verbatim>\<open>while (nextMs <= Date.now())\<close>: it ends at once when \<open>nextMs\<close> is
  \<^verbatim>\<open>NaN\<close>.
\<close>

function s_catch_up :: "int \<Rightarrow> number \<Rightarrow> number \<Rightarrow> number \<times> number" where
  "s_catch_up now nextUnix nextMs =
     (if num_le nextMs now then s_catch_up now (num_plus nextUnix 86400) (num_plus nextMs 86400000)
      else (nextUnix, nextMs))"
  by pat_completeness auto
termination
  by (relation "measure (\<lambda>(now, nextUnix, nextMs).
         case nextMs of Num m \<Rightarrow> nat (now + 1 - m) | NaN \<Rightarrow> 0)")
     (auto simp: num_le_def num_plus_def split: number.splits)

declare s_catch_up.simps [simp del]

definition s_remove_or_reschedule :: "int \<Rightarrow> stored_job \<Rightarrow> stored_world \<Rightarrow> stored_world" where
  "s_remove_or_reschedule now job w =
     (let curJobs = s_sort_by_runAtMs (s_jobs w) in
      case findIndex (s_same_occurrence job) curJobs of
        None \<Rightarrow> w
      | Some idx \<Rightarrow>
          let cur = curJobs ! idx;
              rest = splice1 idx curJobs;
              curJobs' =
                (if s_repeatDaily cur then
                   let (nextUnix, nextMs) =
                         s_catch_up now (num_plus (s_scheduledUnix cur) 86400)
                           (num_plus (s_runAtMs cur) 86400000)
                   in rest @ [cur\<lparr>s_scheduledUnix := nextUnix, s_runAtMs := nextMs\<rparr>]
                 else rest)
          in w\<lparr>s_jobs := s_sort_by_runAtMs curJobs'\<rparr>)"

text \<open>
  The drain loop \<^verbatim>\<open>while (true)\<close>, statement by statement as \<open>drain\<close> above. Nothing in
  the source bounds the number of its runs: the result is \<open>None\<close> when the loop never
  reaches \<^verbatim>\<open>break\<close> or \<^verbatim>\<open>throw\<close>.
\<close>

partial_function (option) s_drain ::
  "int \<Rightarrow> (nat \<Rightarrow> bool) \<Rightarrow> dcache \<Rightarrow> stored_world \<Rightarrow>
   ((error \<times> stored_world) + (dcache \<times> stored_world)) option" where
  "s_drain now ok cache w =
     (case s_sort_by_runAtMs (s_jobs w) of
        [] \<Rightarrow> Some (Inr (cache, w))
      | job # _ \<Rightarrow>
          if num_gt (s_runAtMs job) now then Some (Inr (cache, w))
          else if \<not> alreadyDelivered cache (s_deliveryKey job) then
            (case doAtTypeHandlers (s_doAtType job) of
               Undefined \<Rightarrow> s_drain now ok cache (s_purge_unknown job w)
             | Inherited \<Rightarrow> Some (Inl (TypeError, w))
             | Own h \<Rightarrow>
                 let r_ok = ok (length (s_outbox w));
                     w1 = w\<lparr>s_outbox := s_outbox w @ [(job, s_render h job, r_ok)]\<rparr>
                 in
                 if \<not> r_ok then
                   Some (Inl (DiscordApiError,
                              w1\<lparr>s_delivered := DObject (pruneDelivered cache now)\<rparr>))
                 else
                   let cache1 = AList.update (s_deliveryKey job) (JNum now) cache;
                       cache2 = pruneDelivered cache1 now;
                       w2 = w1\<lparr>s_delivered := DObject cache2\<rparr>
                   in s_drain now ok cache2 (s_remove_or_reschedule now job w2))
          else s_drain now ok cache (s_remove_or_reschedule now job w))"

definition s_alarm ::
  "int \<Rightarrow> (nat \<Rightarrow> bool) \<Rightarrow> stored_world \<Rightarrow> ((error \<times> stored_world) + stored_world) option" where
  "s_alarm now ok w =
     (let cache = pruneDelivered (load_delivered (s_delivered w)) now in
      case s_drain now ok cache w of
        None \<Rightarrow> None
      | Some (Inl thrown) \<Rightarrow> Some (Inl thrown)
      | Some (Inr (cache', w')) \<Rightarrow>
          Some (Inr (s_resync (w'\<lparr>s_delivered := DObject (pruneDelivered cache' now)\<rparr>))))"

text \<open>
  The body of \<^verbatim>\<open>POST /schedule\<close> as the handler reads it: \<open>sb_scheduledUnix\<close> is the value
  of \<^verbatim>\<open>Number(job.scheduledUnix)\<close>, which is \<^verbatim>\<open>NaN\<close> for a body without the field.
\<close>

record stored_body =
  sb_guildId :: string
  sb_channelId :: string
  sb_doAtType :: string
  sb_doAtSubject :: string
  sb_scheduledUnix :: number
  sb_repeatDaily :: bool
  sb_createdBy :: "string option"

text \<open>
  \<^verbatim>\<open>/schedule\<close> up to the end of its transaction: the test of the type, the job, and the
  write of the sorted jobs. What the host does on \<^verbatim>\<open>setAlarm(NaN)\<close> afterwards is not part
  of the embedding; the alarm handler does not read the alarm.
\<close>

definition s_schedule_transaction :: "string \<Rightarrow> stored_body \<Rightarrow> stored_world \<Rightarrow> stored_world" where
  "s_schedule_transaction uuid b w =
     (if \<not> in_doAtTypeHandlers (sb_doAtType b) then w
      else
        let scheduledUnix = sb_scheduledUnix b;
            j = \<lparr>s_id = uuid,
                 s_guildId = sb_guildId b,
                 s_channelId = sb_channelId b,
                 s_doAtType = sb_doAtType b,
                 s_doAtSubject = sb_doAtSubject b,
                 s_scheduledUnix = scheduledUnix,
                 s_runAtMs = num_times scheduledUnix 1000,
                 s_repeatDaily = sb_repeatDaily b,
                 s_createdBy = sb_createdBy b\<rparr>
        in w\<lparr>s_jobs := s_sort_by_runAtMs (s_jobs w @ [j])\<rparr>)"

definition s_empty_world :: stored_world where
  "s_empty_world = \<lparr>s_jobs = [], s_delivered = DAbsent, s_alarm_at = None, s_outbox = []\<rparr>"

text \<open>A body without \<^verbatim>\<open>scheduledUnix\<close>, and the job that \<^verbatim>\<open>/schedule\<close> stores for it.\<close>

definition nan_body :: stored_body where
  "nan_body = \<lparr>sb_guildId = ''g1'', sb_channelId = ''c1'', sb_doAtType = ''ping-role'',
               sb_doAtSubject = ''123456'', sb_scheduledUnix = NaN,
               sb_repeatDaily = False, sb_createdBy = Some ''u9''\<rparr>"

definition nan_job :: stored_job where
  "nan_job = \<lparr>s_id = ''id-1'', s_guildId = ''g1'', s_channelId = ''c1'',
              s_doAtType = ''ping-role'', s_doAtSubject = ''123456'', s_scheduledUnix = NaN,
              s_runAtMs = NaN, s_repeatDaily = False, s_createdBy = Some ''u9''\<rparr>"


text \<open>
  A stored job whose numbers are \<^verbatim>\<open>NaN\<close> matches no job in \<^verbatim>\<open>findIndex\<close>: neither
  transaction removes it. When it is the only stored job and every answer is ok, the loop
  never returns.
\<close>

lemma nan_not_found:
  "s_scheduledUnix j = NaN \<Longrightarrow> findIndex (s_same_occurrence j) xs = None"
  by (simp add: findIndex_None s_same_occurrence_def strict_equal_def split: number.splits)

lemma s_sort_single [simp]: "s_sort_by_runAtMs [j] = [j]"
  by (simp add: s_sort_by_runAtMs_def)

lemma nan_purge_unknown: "s_scheduledUnix j = NaN \<Longrightarrow> s_purge_unknown j w = w"
  by (simp add: s_purge_unknown_def nan_not_found)

lemma nan_remove_or_reschedule:
  "s_scheduledUnix j = NaN \<Longrightarrow> s_remove_or_reschedule now j w = w"
  by (simp add: s_remove_or_reschedule_def nan_not_found)

lemma nan_job_stuck:
  assumes su: "s_scheduledUnix j = NaN" and run: "s_runAtMs j = NaN"
    and ty: "doAtTypeHandlers (s_doAtType j) \<noteq> Inherited"
    and r: "s_drain now ok cache w = Some y"
  shows "\<not> (s_jobs w = [j] \<and> (\<forall>n. ok n))"
proof (rule s_drain.raw_induct
    [OF _ r, where P = "\<lambda>now ok cache w y. \<not> (s_jobs w = [j] \<and> (\<forall>n. ok n))"], goal_cases)
  case (1 f now ok cache w y)
  show ?case
  proof
    assume "s_jobs w = [j] \<and> (\<forall>n. ok n)"
    then have jobs: "s_jobs w = [j]" and ok: "\<forall>n. ok n"
      by simp_all
    have due: "\<not> num_gt (s_runAtMs j) now"
      by (simp add: run num_gt_def)
    show False
    proof (cases "alreadyDelivered cache (s_deliveryKey j)")
      case True
      with 1(2) have "f now ok cache w = Some y"
        by (simp add: jobs due nan_remove_or_reschedule [OF su])
      from 1(1) [OF this] jobs ok show False
        by simp
    next
      case False
      show False
      proof (cases "doAtTypeHandlers (s_doAtType j)")
        case Undefined
        with 1(2) False have "f now ok cache w = Some y"
          by (simp add: jobs due nan_purge_unknown [OF su])
        from 1(1) [OF this] jobs ok show False
          by simp
      next
        case Inherited
        with ty show False by simp
      next
        case (Own h)
        let ?c = "pruneDelivered (AList.update (s_deliveryKey j) (JNum now) cache) now"
        let ?w = "w\<lparr>s_outbox := s_outbox w @ [(j, s_render h j, True)],
                     s_delivered := DObject ?c\<rparr>"
        from 1(2) False Own ok have "f now ok ?c ?w = Some y"
          by (simp add: jobs due nan_remove_or_reschedule [OF su] Let_def)
        from 1(1) [OF this] jobs ok show False
          by simp
      qed
    qed
  qed
qed

lemma nan_job_never_returns:
  assumes "s_scheduledUnix j = NaN" and "s_runAtMs j = NaN"
    and "doAtTypeHandlers (s_doAtType j) \<noteq> Inherited"
    and "s_jobs w = [j]" and "\<forall>n. ok n"
  shows "s_alarm now ok w = None"
proof -
  have "s_drain now ok (pruneDelivered (load_delivered (s_delivered w)) now) w = None"
  proof (cases "s_drain now ok (pruneDelivered (load_delivered (s_delivered w)) now) w")
    case None
    then show ?thesis .
  next
    case (Some y)
    from nan_job_stuck [OF assms(1-3) Some] assms(4,5) show ?thesis by simp
  qed
  then show ?thesis
    by (simp add: s_alarm_def)
qed

subsection \<open>Stored numbers that are integers\<close>

text \<open>
  A job of the first embedding as a stored job, and a world as a stored world. On these
  the sort, the two transactions, the drain loop and the alarm handler of this section
  are those of the first embedding.
\<close>

definition as_stored :: "job \<Rightarrow> stored_job" where
  "as_stored j =
     \<lparr>s_id = id' j,
      s_guildId = guildId j,
      s_channelId = channelId j,
      s_doAtType = doAtType j,
      s_doAtSubject = doAtSubject j,
      s_scheduledUnix = Num (scheduledUnix j),
      s_runAtMs = Num (runAtMs j),
      s_repeatDaily = repeatDaily j,
      s_createdBy = createdBy j\<rparr>"

definition as_stored_world :: "world \<Rightarrow> stored_world" where
  "as_stored_world w =
     \<lparr>s_jobs = map as_stored (jobs w),
      s_delivered = delivered w,
      s_alarm_at = map_option Num (alarm_at w),
      s_outbox = map (\<lambda>(j, m, b). (as_stored j, m, b)) (outbox w)\<rparr>"

lemma s_render_as_stored [simp]: "s_render h (as_stored j) = render h j"
  by (cases h)
     (simp_all add: s_render_def render_def as_stored_def s_outerContent_def outerContent_def
        s_innerContent_def innerContent_def s_allowedMentions_def allowedMentions_def
        show_number_def)

lemma s_deliveryKey_as_stored [simp]: "s_deliveryKey (as_stored j) = deliveryKey j"
  by (simp add: s_deliveryKey_def deliveryKey_def as_stored_def show_number_def)

lemma s_doAtType_as_stored [simp]: "s_doAtType (as_stored j) = doAtType j"
  by (simp add: as_stored_def)

lemma s_runAtMs_as_stored [simp]: "s_runAtMs (as_stored j) = Num (runAtMs j)"
  by (simp add: as_stored_def)

lemma s_insert_as_stored:
  "s_insert (as_stored x) (map as_stored ys) = map as_stored (insort_key runAtMs x ys)"
  by (induction ys) (auto simp: sort_compare_def num_minus_def)

lemma s_sort_as_stored [simp]:
  "s_sort_by_runAtMs (map as_stored xs) = map as_stored (sort_by_runAtMs xs)"
  by (induction xs)
     (simp_all add: s_sort_by_runAtMs_def sort_by_runAtMs_def sort_key_def s_insert_as_stored)

lemma findIndex_map: "findIndex p (map f xs) = findIndex (p \<circ> f) xs"
  by (induction xs) simp_all

lemma s_same_occurrence_as_stored [simp]:
  "s_same_occurrence (as_stored job) (as_stored j) = same_occurrence job j"
  by (simp add: s_same_occurrence_def same_occurrence_def as_stored_def strict_equal_def)

lemma findIndex_as_stored [simp]:
  "findIndex (s_same_occurrence (as_stored job)) (map as_stored xs) =
   findIndex (same_occurrence job) xs"
  by (simp add: findIndex_map comp_def)

lemma splice1_map: "splice1 i (map f xs) = map f (splice1 i xs)"
  by (simp add: splice1_def take_map drop_map)

lemma s_purge_unknown_as_stored [simp]:
  "s_purge_unknown (as_stored job) (as_stored_world w) = as_stored_world (purge_unknown job w)"
  by (cases "findIndex (same_occurrence job) (jobs w)")
     (simp_all add: s_purge_unknown_def purge_unknown_def as_stored_world_def splice1_map
        Let_def)

lemma s_catch_up_Num:
  "s_catch_up now (Num u) (Num m) = (Num (fst (catch_up now u m)), Num (snd (catch_up now u m)))"
proof (induction now u m rule: catch_up.induct)
  case (1 now u m)
  show ?case
  proof (cases "m \<le> now")
    case True
    with 1 show ?thesis
      by (subst s_catch_up.simps, subst (1 2) catch_up.simps)
         (simp add: num_le_def num_plus_def)
  next
    case False
    then show ?thesis
      by (subst s_catch_up.simps, subst (1 2) catch_up.simps) (simp add: num_le_def)
  qed
qed

lemma s_sort_as_stored_snoc:
  "s_sort_by_runAtMs (map as_stored xs @ [as_stored y]) =
   map as_stored (sort_by_runAtMs (xs @ [y]))"
  using s_sort_as_stored [of "xs @ [y]"] by simp

lemma as_stored_update:
  "(as_stored c)\<lparr>s_scheduledUnix := Num u, s_runAtMs := Num m\<rparr> =
   as_stored (c\<lparr>scheduledUnix := u, runAtMs := m\<rparr>)"
  by (simp add: as_stored_def)

lemma as_stored_sel [simp]:
  "s_repeatDaily (as_stored c) = repeatDaily c"
  "s_scheduledUnix (as_stored c) = Num (scheduledUnix c)"
  "s_id (as_stored c) = id' c"
  by (simp_all add: as_stored_def)

lemma s_remove_or_reschedule_as_stored [simp]:
  "s_remove_or_reschedule now (as_stored job) (as_stored_world w) =
   as_stored_world (remove_or_reschedule now job w)"
proof (cases "findIndex (same_occurrence job) (sort_by_runAtMs (jobs w))")
  case None
  then show ?thesis
    by (simp add: s_remove_or_reschedule_def remove_or_reschedule_def as_stored_world_def)
next
  case (Some i)
  have i: "i < length (sort_by_runAtMs (jobs w))"
    using findIndex_Some [OF Some] by blast
  have nth: "map as_stored (sort_by_runAtMs (jobs w)) ! i = as_stored (sort_by_runAtMs (jobs w) ! i)"
    using i by (rule nth_map)
  show ?thesis
    using Some
    by (simp add: s_remove_or_reschedule_def remove_or_reschedule_def as_stored_world_def
        splice1_map Let_def nth s_catch_up_Num num_plus_def as_stored_update split_beta
        s_sort_as_stored_snoc)
qed

lemma s_resync_as_stored [simp]: "s_resync (as_stored_world w) = as_stored_world (resync w)"
  by (simp add: s_resync_def resync_def as_stored_world_def split: list.splits)

lemma s_jobs_as_stored_world [simp]: "s_jobs (as_stored_world w) = map as_stored (jobs w)"
  by (simp add: as_stored_world_def)

lemma s_delivered_as_stored_world [simp]: "s_delivered (as_stored_world w) = delivered w"
  by (simp add: as_stored_world_def)

lemma length_s_outbox_as_stored_world [simp]:
  "length (s_outbox (as_stored_world w)) = length (outbox w)"
  by (simp add: as_stored_world_def)

lemma as_stored_world_post:
  "(as_stored_world w)\<lparr>s_outbox := s_outbox (as_stored_world w) @ [(as_stored job, m, b)],
                        s_delivered := d\<rparr> =
   as_stored_world (w\<lparr>outbox := outbox w @ [(job, m, b)], delivered := d\<rparr>)"
  by (simp add: as_stored_world_def)

lemma as_stored_world_delivered:
  "(as_stored_world w)\<lparr>s_delivered := d\<rparr> = as_stored_world (w\<lparr>delivered := d\<rparr>)"
  by (simp add: as_stored_world_def)

lemma s_sort_Nil [simp]: "s_sort_by_runAtMs [] = []"
  by (simp add: s_sort_by_runAtMs_def)

lemma num_gt_Num [simp]: "num_gt (Num i) now \<longleftrightarrow> now < i"
  by (simp add: num_gt_def)

lemma s_drain_as_stored:
  "s_drain now ok cache (as_stored_world w) =
   Some (map_sum (apsnd as_stored_world) (apsnd as_stored_world) (drain now ok cache w))"
proof (induction now ok cache w rule: drain_cases_induct)
  case (empty now ok cache w)
  then show ?case
    by (subst s_drain.simps) (simp add: drain_empty)
next
  case (future now ok cache w job rest)
  then show ?case
    by (subst s_drain.simps) (simp add: drain_future)
next
  case (purge now ok cache w job rest)
  then show ?case
    by (subst s_drain.simps) (simp add: drain_purge)
next
  case (type_error now ok cache w job rest)
  then show ?case
    by (subst s_drain.simps) (simp add: drain_type_error)
next
  case (fail now ok cache w job rest h)
  then show ?case
    by (subst s_drain.simps) (simp add: drain_fail as_stored_world_post)
next
  case (send now ok cache w job rest h)
  then show ?case
    by (subst s_drain.simps) (simp add: drain_send as_stored_world_post Let_def)
next
  case (skip now ok cache w job rest)
  then show ?case
    by (subst s_drain.simps) (simp add: drain_skip)
qed

lemma s_alarm_as_stored:
  "s_alarm now ok (as_stored_world w) =
   Some (map_sum (apsnd as_stored_world) as_stored_world (alarm now ok w))"
  by (simp add: s_alarm_def alarm_def s_drain_as_stored as_stored_world_delivered
      split: sum.splits)

text \<open>
  Every stored world whose numbers are integers is the stored world of a world of the
  first embedding.
\<close>

definition is_integer :: "number \<Rightarrow> bool" where
  "is_integer a = (case a of Num _ \<Rightarrow> True | NaN \<Rightarrow> False)"

definition integer_job :: "stored_job \<Rightarrow> bool" where
  "integer_job j = (is_integer (s_scheduledUnix j) \<and> is_integer (s_runAtMs j))"

definition integer_world :: "stored_world \<Rightarrow> bool" where
  "integer_world w =
     (list_all integer_job (s_jobs w) \<and> list_all (\<lambda>(j, m, b). integer_job j) (s_outbox w) \<and>
      (case s_alarm_at w of None \<Rightarrow> True | Some a \<Rightarrow> is_integer a))"

definition the_integer :: "number \<Rightarrow> int" where
  "the_integer a = (case a of Num i \<Rightarrow> i | NaN \<Rightarrow> 0)"

definition as_job :: "stored_job \<Rightarrow> job" where
  "as_job j =
     \<lparr>id' = s_id j,
      guildId = s_guildId j,
      channelId = s_channelId j,
      doAtType = s_doAtType j,
      doAtSubject = s_doAtSubject j,
      scheduledUnix = the_integer (s_scheduledUnix j),
      runAtMs = the_integer (s_runAtMs j),
      repeatDaily = s_repeatDaily j,
      createdBy = s_createdBy j\<rparr>"

definition as_world :: "stored_world \<Rightarrow> world" where
  "as_world w =
     \<lparr>jobs = map as_job (s_jobs w),
      delivered = s_delivered w,
      alarm_at = map_option the_integer (s_alarm_at w),
      outbox = map (\<lambda>(j, m, b). (as_job j, m, b)) (s_outbox w)\<rparr>"

lemma is_integer_Num: "is_integer a \<Longrightarrow> Num (the_integer a) = a"
  by (cases a) (simp_all add: is_integer_def the_integer_def)

lemma as_stored_as_job: "integer_job j \<Longrightarrow> as_stored (as_job j) = j"
  by (simp add: as_stored_def as_job_def integer_job_def is_integer_Num)

lemma as_stored_world_as_world:
  assumes "integer_world w"
  shows "as_stored_world (as_world w) = w"
proof -
  have "map (as_stored \<circ> as_job) (s_jobs w) = s_jobs w"
    using assms by (auto simp: integer_world_def list_all_iff as_stored_as_job intro: map_idI)
  moreover have "map ((\<lambda>(j, m, b). (as_stored j, m, b)) \<circ> (\<lambda>(j, m, b). (as_job j, m, b)))
        (s_outbox w) = s_outbox w"
    using assms by (auto simp: integer_world_def list_all_iff as_stored_as_job intro!: map_idI)
  moreover have "map_option (Num \<circ> the_integer) (s_alarm_at w) = s_alarm_at w"
    using assms by (cases "s_alarm_at w") (simp_all add: integer_world_def is_integer_Num)
  ultimately show ?thesis
    by (simp add: as_stored_world_def as_world_def option.map_comp)
qed

text \<open>
  On a stored world whose numbers are integers the drain loop returns, whatever the
  answers of the Discord API are, with the result of \<open>alarm\<close>.
\<close>

lemma integer_world_alarm:
  assumes "integer_world w"
  shows "s_alarm now ok w =
         Some (map_sum (apsnd as_stored_world) as_stored_world (alarm now ok (as_world w)))"
  using s_alarm_as_stored [of now ok "as_world w"] assms by (simp add: as_stored_world_as_world)


subsection \<open>The messages of the due jobs\<close>

text \<open>
  The key of a job determines its id: the decimal text of a number has no colon, so the
  last colon of the key ends the id.
\<close>

lemma digit_char_not_colon: "d < 10 \<Longrightarrow> digit_char d \<noteq> CHR '':''"
proof -
  assume "d < 10"
  then have "d < length ''0123456789''"
    by simp
  then have "''0123456789'' ! d \<in> set ''0123456789''"
    by (rule nth_mem)
  then show ?thesis
    unfolding digit_char_def by auto
qed

lemma show_nat_no_colon: "CHR '':'' \<notin> set (show_nat n)"
proof (induction n rule: show_nat.induct)
  case (1 n)
  show ?case
  proof (cases "n < 10")
    case True
    then show ?thesis
      using digit_char_not_colon [of n] by (subst show_nat.simps) simp
  next
    case False
    then show ?thesis
      using 1 digit_char_not_colon [of "n mod 10"] by (subst show_nat.simps) simp
  qed
qed

lemma show_int_no_colon: "CHR '':'' \<notin> set (show_int i)"
  by (simp add: show_int_def show_nat_no_colon)

lemma append_sep_inj:
  assumes "xs @ c # s = ys @ c # t" and "c \<notin> set s" and "c \<notin> set t"
  shows "xs = ys"
  using assms
proof (induction xs arbitrary: ys)
  case Nil
  then show ?case
    by (cases ys) auto
next
  case (Cons x xs)
  then show ?case
    by (cases ys) auto
qed

lemma deliveryKey_id:
  assumes "deliveryKey a = deliveryKey b"
  shows "id' a = id' b"
proof -
  from assms
  have "id' a @ CHR '':'' # show_int (scheduledUnix a) =
        id' b @ CHR '':'' # show_int (scheduledUnix b)"
    by (simp add: deliveryKey_def)
  then show ?thesis
    using show_int_no_colon show_int_no_colon by (rule append_sep_inj)
qed

text \<open>
  With one job per id: when a run completes, the message of every job that was due, has
  a registered type and whose key the cache did not hold has been posted and answered ok.
\<close>

lemma alreadyDelivered_update_other:
  "k \<noteq> k' \<Longrightarrow> alreadyDelivered (AList.update k' v cache) k = alreadyDelivered cache k"
  by (simp add: alreadyDelivered_def update_conv')

lemma alreadyDelivered_pruneDelivered:
  assumes "alreadyDelivered (pruneDelivered cache now) k"
  shows "alreadyDelivered cache k"
proof (rule ccontr)
  assume "\<not> alreadyDelivered cache k"
  then have "k \<notin> fst ` set (pruneDelivered cache now)"
    by (rule not_alreadyDelivered_pruneDelivered)
  then have "map_of (pruneDelivered cache now) k = None"
    by (simp add: map_of_eq_None_iff)
  with assms show False
    by (simp add: alreadyDelivered_def)
qed

lemma drain_due_delivered:
  "distinct (map id' (jobs w)) \<Longrightarrow> j \<in> set (jobs w) \<Longrightarrow> runAtMs j \<le> now \<Longrightarrow>
   doAtTypeHandlers (doAtType j) = Own h \<Longrightarrow> \<not> alreadyDelivered cache (deliveryKey j) \<Longrightarrow>
   drain now ok cache w = Inr r \<Longrightarrow>
   (j, render h j, True) \<in> set (posts w (dworld (drain now ok cache w)))"
proof (induction now ok cache w rule: drain_cases_induct)
  case (empty now ok cache w)
  then show ?case by simp
next
  case (future now ok cache w job rest)
  from sort_by_head_least [OF future(1)] future(4) have "runAtMs job \<le> runAtMs j"
    by blast
  with future(2,5) show ?case by simp
next
  case (purge now ok cache w job rest)
  note step = drain_purge [OF purge(1-4), of ok]
  have head: "job \<in> set (jobs w)"
    using purge(1) by (simp add: set_head_rest)
  have ne: "j \<noteq> job"
    using purge(4,9) by auto
  have "j \<in> set (jobs (purge_unknown job w))"
    using purge_unknown_distinct_ids(1) [OF head purge(6)] purge(7) ne by simp
  moreover have "distinct (map id' (jobs (purge_unknown job w)))"
    using head purge(6) by (rule purge_unknown_distinct_ids(2))
  moreover have "drain now ok cache (purge_unknown job w) = Inr r"
    using purge(11) by (simp only: step)
  ultimately have "(j, render h j, True) \<in>
      set (posts (purge_unknown job w) (dworld (drain now ok cache (purge_unknown job w))))"
    using purge(8,9,10) by (intro purge(5))
  note this
  moreover have "posts (purge_unknown job w) (dworld (drain now ok cache (purge_unknown job w))) =
      posts w (dworld (drain now ok cache (purge_unknown job w)))"
    by (rule posts_same_outbox) simp
  ultimately show ?case
    by (simp only: step)
next
  case (type_error now ok cache w job rest)
  then show ?case
    by (simp add: drain_type_error)
next
  case (fail now ok cache w job rest h')
  then show ?case
    by (simp add: drain_fail)
next
  case (send now ok cache w job rest h')
  let ?c = "pruneDelivered (AList.update (deliveryKey job) (JNum now) cache) now"
  let ?w1 = "w\<lparr>outbox := outbox w @ [(job, render h' job, True)], delivered := DObject ?c\<rparr>"
  let ?w2 = "remove_or_reschedule now job ?w1"
  note step = drain_send [where ok = ok, OF send(1-5)]
  have ob: "outbox ?w2 = outbox w @ [(job, render h' job, True)]"
    by simp
  note ps = posts_step [OF ob, of now ok ?c]
  show ?case
  proof (cases "j = job")
    case True
    with send(4,10) have "h' = h"
      by simp
    have "(job, render h' job, True) \<in> set (posts w (dworld (drain now ok ?c ?w2)))"
      unfolding ps by simp
    with True \<open>h' = h\<close> show ?thesis
      by (simp only: step)
  next
    case False
    have jobs1: "jobs ?w1 = jobs w"
      by simp
    have "j \<in> set rest"
      using send(1,8) False by (simp add: set_head_rest)
    then have in2: "j \<in> set (jobs ?w2)"
      by (simp add: set_remove_or_reschedule_head [OF send(1) jobs1])
    have d2: "distinct (map id' (jobs ?w2))"
      using send(1) jobs1 send(7) by (rule distinct_ids_remove_or_reschedule_head)
    have "job \<in> set (jobs w)"
      using send(1) by (simp add: set_head_rest)
    with send(7,8) False have "id' j \<noteq> id' job"
      by (meson distinct_map inj_onD)
    then have kne: "deliveryKey j \<noteq> deliveryKey job"
      using deliveryKey_id by blast
    have fresh: "\<not> alreadyDelivered ?c (deliveryKey j)"
    proof
      assume "alreadyDelivered ?c (deliveryKey j)"
      then have "alreadyDelivered (AList.update (deliveryKey job) (JNum now) cache) (deliveryKey j)"
        by (rule alreadyDelivered_pruneDelivered)
      with kne send(11) show False
        by (simp add: alreadyDelivered_update_other)
    qed
    have "drain now ok ?c ?w2 = Inr r"
      using send(12) by (simp only: step)
    with d2 in2 send(9,10) fresh
    have "(j, render h j, True) \<in> set (posts ?w2 (dworld (drain now ok ?c ?w2)))"
      by (intro send(6))
    then have "(j, render h j, True) \<in> set (posts w (dworld (drain now ok ?c ?w2)))"
      unfolding ps by simp
    then show ?thesis
      by (simp only: step)
  qed
next
  case (skip now ok cache w job rest)
  let ?w2 = "remove_or_reschedule now job w"
  note step = drain_skip [OF skip(1-3), of ok]
  have ne: "j \<noteq> job"
    using skip(3,9) by auto
  have "j \<in> set rest"
    using skip(1,6) ne by (simp add: set_head_rest)
  then have in2: "j \<in> set (jobs ?w2)"
    by (simp add: set_remove_or_reschedule_head [OF skip(1) refl])
  have d2: "distinct (map id' (jobs ?w2))"
    using skip(1) refl skip(5) by (rule distinct_ids_remove_or_reschedule_head)
  have "drain now ok cache ?w2 = Inr r"
    using skip(10) by (simp only: step)
  with d2 in2 skip(7,8,9)
  have "(j, render h j, True) \<in> set (posts ?w2 (dworld (drain now ok cache ?w2)))"
    by (intro skip(4))
  moreover have "posts ?w2 (dworld (drain now ok cache ?w2)) =
      posts w (dworld (drain now ok cache ?w2))"
    by (rule posts_same_outbox) simp
  ultimately show ?case
    by (simp only: step)
qed

subsection \<open>C10: what the prune deletes\<close>

text \<open>
  C10. For a cache with one entry per key and every \<open>nowMs\<close>, \<open>pruneDelivered\<close> leaves
  exactly the entries whose value is a number that is not less than \<open>nowMs\<close> minus
  1,209,600,000 ms (14 days), in their order and with their values; it deletes every
  entry whose value is not a number (corrupt entries) or is an older timestamp.
\<close>

theorem pruneDelivered_exact:
  assumes "distinct (map fst cache)"
  shows "pruneDelivered cache nowMs =
         filter (\<lambda>(k, v). case v of
                             JNum t \<Rightarrow> \<not> t < nowMs - 1209600000
                           | JNaN \<Rightarrow> True
                           | _ \<Rightarrow> False) cache"
proof -
  have "(typeof_number v \<and> \<not> num_less v (nowMs - DELIVERED_TTL_MS)) =
        (case v of JNum t \<Rightarrow> \<not> t < nowMs - 1209600000 | JNaN \<Rightarrow> True | _ \<Rightarrow> False)" for v
    by (cases v) (simp_all add: typeof_number_def num_less_def DELIVERED_TTL_MS_def)
  then show ?thesis
    using pruneDelivered_filter [OF assms] by simp
qed

theorem pruneDelivered_exact_witness:
  "distinct (map fst [(''a:1'', JNum 5), (''b:2'', JStr ''x''), (''c:3'', JNum 2000000000),
                      (''d:4'', JNaN), (''e:5'', JNull)]) \<and>
   pruneDelivered [(''a:1'', JNum 5), (''b:2'', JStr ''x''), (''c:3'', JNum 2000000000),
                   (''d:4'', JNaN), (''e:5'', JNull)] 3000000000 =
     [(''c:3'', JNum 2000000000), (''d:4'', JNaN)]"
  using pruneDelivered_exact
    [of "[(''a:1'', JNum 5), (''b:2'', JStr ''x''), (''c:3'', JNum 2000000000),
          (''d:4'', JNaN), (''e:5'', JNull)]" 3000000000]
  by simp

subsection \<open>C8: schedule, then list\<close>

text \<open>
  C8. From an empty job set, scheduling a body with a registered type and
  \<open>scheduledUnix = T\<close> stores exactly one job, and \<open>list_jobs\<close> then shows exactly that
  one job, with \<open>runAtMs = T * 1000\<close> and \<open>scheduledUnix = T\<close>.
\<close>

theorem schedule_list_round_trip:
  assumes "jobs w = []" and "doAtTypeHandlers (b_doAtType b) = Own h"
    and "b_scheduledUnix b = T"
  shows "\<exists>j. schedule uuid b w = (Scheduled j, w\<lparr>jobs := [j], alarm_at := Some (T * 1000)\<rparr>) \<and>
             list_jobs (snd (schedule uuid b w)) = Inr (JobList 1 [j]) \<and>
             id' j = uuid \<and> scheduledUnix j = T \<and> runAtMs j = T * 1000"
  using assms
  by (simp add: schedule_def in_doAtTypeHandlers_def resync_def sort_by_runAtMs_def
      list_jobs_def is_Own_def Let_def)


theorem schedule_list_round_trip_witness:
  "list_jobs (snd (schedule ''id-1'' ex_body empty_world)) =
     Inr (JobList 1
       [\<lparr>id' = ''id-1'', guildId = ''g1'', channelId = ''c1'', doAtType = ''ping-role'',
         doAtSubject = ''123456'', scheduledUnix = 1700000000, runAtMs = 1700000000000,
         repeatDaily = False, createdBy = Some ''u9''\<rparr>])"
proof -
  have 1: "jobs empty_world = []"
    by (simp add: empty_world_def)
  have 2: "doAtTypeHandlers (b_doAtType ex_body) = Own PingRole"
    by (simp add: ex_body_def doAtTypeHandlers_def)
  have 3: "b_scheduledUnix ex_body = 1700000000"
    by (simp add: ex_body_def)
  from schedule_list_round_trip [OF 1 2 3, of "''id-1''"]
  obtain j where j: "schedule ''id-1'' ex_body empty_world =
        (Scheduled j, empty_world\<lparr>jobs := [j], alarm_at := Some (1700000000 * 1000)\<rparr>)"
      "list_jobs (snd (schedule ''id-1'' ex_body empty_world)) = Inr (JobList 1 [j])"
    by blast
  have "schedule ''id-1'' ex_body empty_world =
      (Scheduled \<lparr>id' = ''id-1'', guildId = ''g1'', channelId = ''c1'', doAtType = ''ping-role'',
         doAtSubject = ''123456'', scheduledUnix = 1700000000, runAtMs = 1700000000000,
         repeatDaily = False, createdBy = Some ''u9''\<rparr>,
       empty_world\<lparr>jobs := [\<lparr>id' = ''id-1'', guildId = ''g1'', channelId = ''c1'', doAtType = ''ping-role'',
         doAtSubject = ''123456'', scheduledUnix = 1700000000, runAtMs = 1700000000000,
         repeatDaily = False, createdBy = Some ''u9''\<rparr>], alarm_at := Some 1700000000000\<rparr>)"
    by (simp add: schedule_def ex_body_def empty_world_def in_doAtTypeHandlers_def
        doAtTypeHandlers_def resync_def sort_by_runAtMs_def Let_def)
  with j show ?thesis by simp
qed

subsection \<open>C7: cancelling twice\<close>

lemma findIndex_first:
  assumes "distinct (map f xs)" and "x \<in> set xs"
  shows "\<exists>i. findIndex (\<lambda>y. f y = f x) xs = Some i \<and> i < length xs \<and> xs ! i = x"
proof -
  from assms(2) have "findIndex (\<lambda>y. f y = f x) xs \<noteq> None"
    by (auto simp: findIndex_None)
  then obtain i where i: "findIndex (\<lambda>y. f y = f x) xs = Some i"
    by auto
  then have "i < length xs" "f (xs ! i) = f x"
    using findIndex_Some [OF i] by auto
  moreover have "xs ! i = x"
    using assms calculation by (meson distinct_map inj_onD nth_mem)
  ultimately show ?thesis
    using i by simp
qed

lemma splice1_distinct_notin:
  assumes "distinct (map f xs)" and "i < length xs"
  shows "\<forall>y\<in>set (splice1 i xs). f y \<noteq> f (xs ! i)"
proof -
  have "map f xs = map f (take i xs) @ f (xs ! i) # map f (drop (Suc i) xs)"
    using assms(2) by (metis id_take_nth_drop list.simps(9) map_append)
  with assms(1) have "f (xs ! i) \<notin> set (map f (take i xs)) \<union> set (map f (drop (Suc i) xs))"
    by (metis distinct.simps(2) distinct_append not_distinct_conv_prefix set_append Un_iff)
  then have notin: "f (xs ! i) \<notin> f ` (set (take i xs) \<union> set (drop (Suc i) xs))"
    by (simp add: image_Un)
  show ?thesis
  proof
    fix y
    assume "y \<in> set (splice1 i xs)"
    then have "f y \<in> f ` (set (take i xs) \<union> set (drop (Suc i) xs))"
      by (simp add: splice1_def)
    with notin show "f y \<noteq> f (xs ! i)"
      by metis
  qed
qed

text \<open>
  C7. With one job per id, cancelling the id of a stored job answers with the removed job
  and removes it; cancelling the same id again answers that no job was found and leaves
  the world as it is. Cancelling any id that no stored job has changes nothing, whatever
  the world.
\<close>

theorem cancel_twice:
  assumes "distinct (map id' (jobs w))" and "j \<in> set (jobs w)"
    and "js_trim s = id' j" and "id' j \<noteq> []"
  shows "\<exists>w1. cancel (Some s) w = (Cancelled (id' j) j, w1) \<and>
              cancel (Some s) w1 = (NoJobFound (id' j), w1) \<and>
              (\<forall>raw w'. (\<forall>j'\<in>set (jobs w'). id' j' \<noteq> js_trim (case raw of None \<Rightarrow> [] | Some t \<Rightarrow> t))
                 \<longrightarrow> snd (cancel raw w') = w' \<and>
                     fst (cancel raw w') \<in>
                       {ProvideValidJobId, NoJobFound (js_trim (case raw of None \<Rightarrow> [] | Some t \<Rightarrow> t))})"
proof -
  obtain i where i: "findIndex (\<lambda>y. id' y = id' j) (jobs w) = Some i" "i < length (jobs w)"
      "jobs w ! i = j"
    using findIndex_first [OF assms(1,2)] by blast
  define w1 where "w1 = resync (w\<lparr>jobs := sort_by_runAtMs (splice1 i (jobs w))\<rparr>)"
  have first: "cancel (Some s) w = (Cancelled (id' j) j, w1)"
    using assms(3,4) i by (simp add: cancel_def w1_def Let_def)
  have jobs1: "jobs w1 = sort_by_runAtMs (splice1 i (jobs w))"
    by (simp add: w1_def resync_def split: list.splits)
  have "\<forall>y\<in>set (jobs w1). id' y \<noteq> id' j"
    using splice1_distinct_notin [OF assms(1) i(2)] i(3) by (simp add: jobs1)
  then have "findIndex (\<lambda>y. id' y = id' j) (jobs w1) = None"
    by (simp add: findIndex_None)
  then have second: "cancel (Some s) w1 = (NoJobFound (id' j), w1)"
    using assms(3,4) by (simp add: cancel_def Let_def)
  have third: "snd (cancel raw w') = w' \<and>
      fst (cancel raw w') \<in> {ProvideValidJobId, NoJobFound (js_trim (case raw of None \<Rightarrow> [] | Some t \<Rightarrow> t))}"
    if "\<forall>j'\<in>set (jobs w'). id' j' \<noteq> js_trim (case raw of None \<Rightarrow> [] | Some t \<Rightarrow> t)"
    for raw w'
  proof -
    from that have "findIndex (\<lambda>y. id' y = js_trim (case raw of None \<Rightarrow> [] | Some t \<Rightarrow> t)) (jobs w') = None"
      by (simp add: findIndex_None)
    then show ?thesis
      by (simp add: cancel_def Let_def)
  qed
  from first second third show ?thesis by blast
qed

theorem cancel_twice_witness:
  "cancel (Some '' id-1  '') ex_world =
     (Cancelled ''id-1'' ex_job, ex_world\<lparr>jobs := [ex_job2], alarm_at := Some 1700000100000\<rparr>) \<and>
   cancel (Some '' id-1  '') (ex_world\<lparr>jobs := [ex_job2], alarm_at := Some 1700000100000\<rparr>) =
     (NoJobFound ''id-1'', ex_world\<lparr>jobs := [ex_job2], alarm_at := Some 1700000100000\<rparr>)"
proof -
  have h1: "distinct (map id' (jobs ex_world))"
    by (simp add: ex_defs)
  have h2: "ex_job \<in> set (jobs ex_world)"
    by (simp add: ex_defs)
  have h3: "js_trim '' id-1  '' = id' ex_job"
    by (simp add: js_trim_def is_space_def ex_defs)
  have h4: "id' ex_job \<noteq> []"
    by (simp add: ex_defs)
  from cancel_twice [OF h1 h2 h3 h4]
  obtain w1 where w1: "cancel (Some '' id-1  '') ex_world = (Cancelled (id' ex_job) ex_job, w1)"
      "cancel (Some '' id-1  '') w1 = (NoJobFound (id' ex_job), w1)"
    by blast
  have "cancel (Some '' id-1  '') ex_world =
      (Cancelled ''id-1'' ex_job, ex_world\<lparr>jobs := [ex_job2], alarm_at := Some 1700000100000\<rparr>)"
    by (simp add: ex_defs eval_defs)
  with w1 show ?thesis
    by (simp add: ex_job_def)
qed

subsection \<open>C2: the alarm agrees with the stored jobs\<close>

lemma resync_consistent: "alarm_consistent (resync w)"
proof (cases "sort_by_runAtMs (jobs w)")
  case Nil
  then show ?thesis
    by (simp add: alarm_consistent_def resync_def)
next
  case (Cons y ys)
  then have "jobs w \<noteq> []"
    by auto
  with Cons show ?thesis
    by (simp add: alarm_consistent_def resync_def sort_by_head_Min)
qed








subsection \<open>C3: the next day of a repeating job\<close>

lemma drain_idle:
  assumes "\<forall>j\<in>set (jobs w). now < runAtMs j"
  shows "drain now ok cache w = Inr (cache, w)"
proof (cases "sort_by_runAtMs (jobs w)")
  case Nil
  then show ?thesis by (rule drain_empty)
next
  case (Cons job rest)
  then have "job \<in> set (jobs w)"
    by (metis list.set_intros(1) set_sort_by)
  with assms have "now < runAtMs job" by simp
  with Cons show ?thesis by (rule drain_future)
qed

lemma catch_up_closed:
  "catch_up now u m =
     (if m \<le> now
      then (u + 86400 * ((now - m) div 86400000 + 1), m + 86400000 * ((now - m) div 86400000 + 1))
      else (u, m))"
proof (induction now u m rule: catch_up.induct)
  case (1 now u m)
  show ?case
  proof (cases "m \<le> now")
    case False
    then show ?thesis by (simp add: catch_up.simps)
  next
    case True
    note IH = "1.IH" [OF True]
    show ?thesis
    proof (cases "m + 86400000 \<le> now")
      case False
      with True have "(now - m) div 86400000 = 0"
        by (simp add: div_pos_pos_trivial)
      with True False IH show ?thesis
        by (subst catch_up.simps) simp
    next
      case next_due: True
      have "(now - m) div 86400000 = (now - (m + 86400000)) div 86400000 + 1"
        using div_add_self2 [of 86400000 "now - (m + 86400000)"] by simp
      with True next_due IH show ?thesis
        by (subst catch_up.simps) (simp add: algebra_simps)
    qed
  qed
qed

lemma advance_closed:
  assumes "runAtMs job \<le> now"
  shows "advance now job =
         job\<lparr>scheduledUnix := scheduledUnix job + 86400 * ((now - runAtMs job) div 86400000 + 1),
             runAtMs := runAtMs job + 86400000 * ((now - runAtMs job) div 86400000 + 1)\<rparr>"
proof (cases "runAtMs job + 86400000 \<le> now")
  case False
  with assms have "(now - runAtMs job) div 86400000 = 0"
    by (simp add: div_pos_pos_trivial)
  with False show ?thesis
    by (simp add: advance_def catch_up_closed)
next
  case True
  have "(now - runAtMs job) div 86400000 = (now - (runAtMs job + 86400000)) div 86400000 + 1"
    using div_add_self2 [of 86400000 "now - (runAtMs job + 86400000)"] by simp
  with True show ?thesis
    by (simp add: advance_def catch_up_closed algebra_simps)
qed

lemma first_boundary_after:
  fixes t now :: int
  defines "n \<equiv> (now - t) div 86400000 + 1"
  shows "now < t + 86400000 * n" and "t + 86400000 * (n - 1) \<le> now"
proof -
  have "now - t = 86400000 * ((now - t) div 86400000) + (now - t) mod 86400000"
    by simp
  moreover have "0 \<le> (now - t) mod 86400000" "(now - t) mod 86400000 < 86400000"
    by simp_all
  ultimately show "now < t + 86400000 * n" and "t + 86400000 * (n - 1) \<le> now"
    unfolding n_def by (simp_all add: algebra_simps)
qed

text \<open>
  C3. Let a repeating job be the first of the sorted stored jobs and due at \<open>now\<close>, and
  let \<open>n\<close> be \<open>(now - runAtMs) div 86,400,000 + 1\<close>. The second transaction replaces it
  by the one job with \<open>scheduledUnix\<close> advanced by \<open>n\<close> times 86,400 and \<open>runAtMs\<close> by \<open>n\<close>
  times 86,400,000: the first daily boundary strictly after \<open>now\<close> (the one before it is
  not after \<open>now\<close>), which for a job processed 3.5 days late is four days after its due
  time. When no other job is due, the type is registered, the key is not in the pruned
  cache and the answer is ok, the invocation as a whole posts exactly one message, for
  the overdue occurrence, stores the advanced job and points the alarm at the next job.
\<close>

theorem daily_catch_up:
  assumes head: "sort_by_runAtMs (jobs w) = job # rest"
    and due: "runAtMs job \<le> now"
    and rep: "repeatDaily job"
  shows "let n = (now - runAtMs job) div 86400000 + 1;
             next = job\<lparr>scheduledUnix := scheduledUnix job + 86400 * n,
                        runAtMs := runAtMs job + 86400000 * n\<rparr>
         in jobs (remove_or_reschedule now job w) = sort_by_runAtMs (rest @ [next]) \<and>
            now < runAtMs next \<and> runAtMs next - 86400000 \<le> now \<and>
            (now - runAtMs job = 302400000 \<longrightarrow>
               runAtMs next = runAtMs job + 345600000 \<and>
               scheduledUnix next = scheduledUnix job + 345600) \<and>
            ((\<forall>j\<in>set rest. now < runAtMs j) \<and>
             doAtTypeHandlers (doAtType job) = Own h \<and>
             \<not> alreadyDelivered (pruneDelivered (load_delivered (delivered w)) now)
                 (deliveryKey job) \<and>
             ok (length (outbox w)) \<longrightarrow>
             (\<exists>w'. alarm now ok w = Inr w' \<and>
                   jobs w' = sort_by_runAtMs (rest @ [next]) \<and>
                   outbox w' = outbox w @ [(job, render h job, True)] \<and>
                   alarm_at w' = Some (Min (runAtMs ` set (rest @ [next])))))"
proof -
  define n where "n = (now - runAtMs job) div 86400000 + 1"
  define "next" where "next = job\<lparr>scheduledUnix := scheduledUnix job + 86400 * n,
                        runAtMs := runAtMs job + 86400000 * n\<rparr>"
  have adv: "advance now job = next"
    using advance_closed [OF due] by (simp add: next_def n_def)
  have jobs': "jobs (remove_or_reschedule now job w') = sort_by_runAtMs (rest @ [next])"
    if "jobs w' = jobs w" for w'
    using remove_or_reschedule_head [of w' job rest now] head rep adv that by simp
  have fut: "now < runAtMs next" and prev: "runAtMs next - 86400000 \<le> now"
    using first_boundary_after [of now "runAtMs job"]
    by (simp_all add: next_def n_def algebra_simps)
  have late: "runAtMs next = runAtMs job + 345600000 \<and> scheduledUnix next = scheduledUnix job + 345600"
    if "now - runAtMs job = 302400000"
    using that by (simp add: next_def n_def)
  have whole: "\<exists>w'. alarm now ok w = Inr w' \<and>
                   jobs w' = sort_by_runAtMs (rest @ [next]) \<and>
                   outbox w' = outbox w @ [(job, render h job, True)] \<and>
                   alarm_at w' = Some (Min (runAtMs ` set (rest @ [next])))"
    if only: "\<forall>j\<in>set rest. now < runAtMs j"
      and own: "doAtTypeHandlers (doAtType job) = Own h"
      and fresh: "\<not> alreadyDelivered (pruneDelivered (load_delivered (delivered w)) now)
                 (deliveryKey job)"
      and ok: "ok (length (outbox w))"
  proof -
    define cache where "cache = pruneDelivered (load_delivered (delivered w)) now"
    define cache' where
      "cache' = pruneDelivered (AList.update (deliveryKey job) (JNum now) cache) now"
    define w2 where "w2 = remove_or_reschedule now job
          (w\<lparr>outbox := outbox w @ [(job, render h job, True)], delivered := DObject cache'\<rparr>)"
    have jobs2: "jobs w2 = sort_by_runAtMs (rest @ [next])"
      unfolding w2_def by (rule jobs') simp
    have out2: "outbox w2 = outbox w @ [(job, render h job, True)]"
      unfolding w2_def
      by (simp add: remove_or_reschedule_def Let_def split: option.splits)
    have "drain now ok cache w = drain now ok cache' w2"
      unfolding cache'_def w2_def
      using head due fresh own ok by (intro drain_send) (simp_all add: cache_def)
    also have "\<dots> = Inr (cache', w2)"
      using only fut by (intro drain_idle) (auto simp: jobs2)
    finally have "alarm now ok w = Inr (resync (w2\<lparr>delivered := DObject (pruneDelivered cache' now)\<rparr>))"
      by (simp add: alarm_def cache_def)
    moreover have "alarm_at (resync (w2\<lparr>delivered := DObject (pruneDelivered cache' now)\<rparr>))
        = Some (Min (runAtMs ` set (rest @ [next])))"
      using resync_consistent [of "w2\<lparr>delivered := DObject (pruneDelivered cache' now)\<rparr>"]
      by (simp add: alarm_consistent_def jobs2 resync_def split: list.splits)
    ultimately show ?thesis
      by (simp add: jobs2 out2 resync_def split: list.splits)
  qed
  show ?thesis
    unfolding Let_def n_def [symmetric] next_def [symmetric]
    using jobs' [of w] fut prev late whole by blast
qed

theorem daily_catch_up_witness:
  "sort_by_runAtMs (jobs late_world) = ex_job2 # [] \<and>
   runAtMs ex_job2 \<le> 1700302500000 \<and> repeatDaily ex_job2 \<and>
   jobs (remove_or_reschedule 1700302500000 ex_job2 late_world) =
     [ex_job2\<lparr>scheduledUnix := 1700345700, runAtMs := 1700345700000\<rparr>] \<and>
   (\<exists>w'. alarm 1700302500000 (\<lambda>_. True) late_world = Inr w' \<and>
         jobs w' = [ex_job2\<lparr>scheduledUnix := 1700345700, runAtMs := 1700345700000\<rparr>] \<and>
         outbox w' = [(ex_job2, render ChannelMessage ex_job2, True)] \<and>
         alarm_at w' = Some 1700345700000)"
proof -
  have h1: "sort_by_runAtMs (jobs late_world) = ex_job2 # []"
    by (simp add: late_world_def sort_by_runAtMs_def)
  have h2: "runAtMs ex_job2 \<le> 1700302500000"
    by (simp add: ex_job2_def)
  have h3: "repeatDaily ex_job2"
    by (simp add: ex_job2_def)
  have n: "(1700302500000 - runAtMs ex_job2) div 86400000 + 1 = 4"
    by (simp add: ex_job2_def)
  have pre: "(\<forall>j\<in>set []. 1700302500000 < runAtMs j) \<and>
      doAtTypeHandlers (doAtType ex_job2) = Own ChannelMessage \<and>
      \<not> alreadyDelivered (pruneDelivered (load_delivered (delivered late_world)) 1700302500000)
          (deliveryKey ex_job2) \<and>
      (\<lambda>_. True) (length (outbox late_world))"
    by (simp add: ex_job2_def late_world_def doAtTypeHandlers_def load_delivered_def
        pruneDelivered_def alreadyDelivered_def)
  note T = daily_catch_up [OF h1 h2 h3, of ChannelMessage "\<lambda>_. True", unfolded Let_def n]
  have nx: "ex_job2\<lparr>scheduledUnix := scheduledUnix ex_job2 + 86400 * 4,
                    runAtMs := runAtMs ex_job2 + 86400000 * 4\<rparr> =
            ex_job2\<lparr>scheduledUnix := 1700345700, runAtMs := 1700345700000\<rparr>"
    by (simp add: ex_job2_def)
  have s1: "sort_by_runAtMs ([] @ [x]) = [x]" for x
    by (simp add: sort_by_runAtMs_def)
  from T have A: "jobs (remove_or_reschedule 1700302500000 ex_job2 late_world) =
      [ex_job2\<lparr>scheduledUnix := 1700345700, runAtMs := 1700345700000\<rparr>]"
    unfolding nx s1 by blast
  from T pre have "\<exists>w'. alarm 1700302500000 (\<lambda>_. True) late_world = Inr w' \<and>
      jobs w' = [ex_job2\<lparr>scheduledUnix := 1700345700, runAtMs := 1700345700000\<rparr>] \<and>
      outbox w' = outbox late_world @ [(ex_job2, render ChannelMessage ex_job2, True)] \<and>
      alarm_at w' =
        Some (Min (runAtMs ` set ([] @ [ex_job2\<lparr>scheduledUnix := 1700345700,
                                              runAtMs := 1700345700000\<rparr>])))"
    unfolding nx s1 by blast
  then have E: "\<exists>w'. alarm 1700302500000 (\<lambda>_. True) late_world = Inr w' \<and>
      jobs w' = [ex_job2\<lparr>scheduledUnix := 1700345700, runAtMs := 1700345700000\<rparr>] \<and>
      outbox w' = [(ex_job2, render ChannelMessage ex_job2, True)] \<and>
      alarm_at w' = Some 1700345700000"
    by (simp add: late_world_def)
  from h1 h2 h3 A E show ?thesis
    by blast
qed

subsection \<open>C4: an answer that is not ok\<close>



subsection \<open>C5: a key that the cache already holds\<close>

text \<open>
  C5, as the code has it. Let the stored cache hold, for the key of \<open>job\<close>, a number that
  is not older than 14 days at \<open>now\<close>, so that the entry survives the prune at the start
  of the invocation. Then the invocation posts no message for that key, however it ends.
  When \<open>job\<close> is the first of the sorted stored jobs and due, the invocation is the
  invocation on the world in which the second transaction has removed \<open>job\<close>, or moved it
  to its next day. With one job per id, a due \<open>job\<close> at any place has been removed, or
  moved to its next day, when the invocation completes.
\<close>

theorem already_delivered_skipped:
  assumes "delivered w = DObject c0" and "distinct (map fst c0)"
    and "map_of c0 (deliveryKey job) = Some (JNum t)" and "now - DELIVERED_TTL_MS \<le> t"
  shows "(\<forall>e\<in>set (posts w (world_of (alarm now ok w))). deliveryKey (fst e) \<noteq> deliveryKey job) \<and>
         (sort_by_runAtMs (jobs w) = job # rest \<and> runAtMs job \<le> now \<longrightarrow>
            alarm now ok w = alarm now ok (remove_or_reschedule now job w) \<and>
            jobs (remove_or_reschedule now job w) =
              sort_by_runAtMs (if repeatDaily job then rest @ [advance now job] else rest)) \<and>
         (distinct (map id' (jobs w)) \<and> job \<in> set (jobs w) \<and> runAtMs job \<le> now \<and>
          alarm now ok w = Inr w' \<longrightarrow>
            {x \<in> set (jobs w'). id' x = id' job} =
              (if repeatDaily job then {advance now job} else {}))"
proof -
  note key = live_key_in_cache0 [OF assms]
  have "\<forall>e\<in>set (posts w (dworld (drain now ok (cache0 now w) w))).
      deliveryKey (fst e) \<notin> fst ` set (cache0 now w)"
    using pruned_cache0 by (rule drain_posts_fresh)
  with key have 1: "\<forall>e\<in>set (posts w (world_of (alarm now ok w))). deliveryKey (fst e) \<noteq> deliveryKey job"
    unfolding posts_alarm by metis
  have 2: "alarm now ok w = alarm now ok (remove_or_reschedule now job w) \<and>
            jobs (remove_or_reschedule now job w) =
              sort_by_runAtMs (if repeatDaily job then rest @ [advance now job] else rest)"
    if "sort_by_runAtMs (jobs w) = job # rest" "runAtMs job \<le> now"
    using alarm_skip_head [OF that key] remove_or_reschedule_head [OF that(1)] by simp
  have 3: "{x \<in> set (jobs w'). id' x = id' job} = (if repeatDaily job then {advance now job} else {})"
    if d: "distinct (map id' (jobs w))" and mem: "job \<in> set (jobs w)" and due: "runAtMs job \<le> now"
      and a: "alarm now ok w = Inr w'"
  proof -
    from a obtain c v where r: "drain now ok (cache0 now w) w = Inr (c, v)"
      and w': "w' = resync (v\<lparr>delivered := DObject (pruneDelivered c now)\<rparr>)"
      by (auto simp: alarm_Inr)
    from drain_skipped_rescheduled [OF d pruned_cache0 mem due key r] show ?thesis
      by (simp add: w')
  qed
  from 1 2 3 show ?thesis
    by blast
qed

lemma key_ex_job: "deliveryKey ex_job = ''id-1:1700000000''"
  by (simp add: ex_defs eval_defs)

theorem already_delivered_skipped_witness:
  "map_of [(''id-1:1700000000'', JNum 1700000000400)] (deliveryKey ex_job) =
     Some (JNum 1700000000400) \<and>
   alarm 1700000000500 (\<lambda>_. True) crashed_world =
     Inr (crashed_world\<lparr>jobs := [ex_job2], alarm_at := Some 1700000100000\<rparr>) \<and>
   posts crashed_world (crashed_world\<lparr>jobs := [ex_job2], alarm_at := Some 1700000100000\<rparr>) = [] \<and>
   {x \<in> set (jobs (crashed_world\<lparr>jobs := [ex_job2], alarm_at := Some 1700000100000\<rparr>)).
      id' x = id' ex_job} = {}"
proof -
  have h1: "delivered crashed_world = DObject [(''id-1:1700000000'', JNum 1700000000400)]"
    by (simp add: crashed_world_def)
  have h2: "distinct (map fst [(''id-1:1700000000'', JNum 1700000000400)])"
    by simp
  have h3: "map_of [(''id-1:1700000000'', JNum 1700000000400)] (deliveryKey ex_job) =
      Some (JNum 1700000000400)"
    by (simp add: key_ex_job)
  have h4: "1700000000500 - DELIVERED_TTL_MS \<le> 1700000000400"
    by (simp add: DELIVERED_TTL_MS_def)
  have ev: "alarm 1700000000500 (\<lambda>_. True) crashed_world =
      Inr (crashed_world\<lparr>jobs := [ex_job2], alarm_at := Some 1700000100000\<rparr>)"
    by (simp add: crashed_world_def ex_defs eval_defs)
  have d: "distinct (map id' (jobs crashed_world))" "ex_job \<in> set (jobs crashed_world)"
      "runAtMs ex_job \<le> 1700000000500" "\<not> repeatDaily ex_job"
    by (simp_all add: crashed_world_def ex_defs)
  note T = already_delivered_skipped [OF h1 h2 h3 h4, of "\<lambda>_. True" "[ex_job2]"
      "crashed_world\<lparr>jobs := [ex_job2], alarm_at := Some 1700000100000\<rparr>"]
  from T d ev have "{x \<in> set (jobs (crashed_world\<lparr>jobs := [ex_job2], alarm_at := Some 1700000100000\<rparr>)).
      id' x = id' ex_job} = {}"
    by simp
  moreover have "posts crashed_world
      (crashed_world\<lparr>jobs := [ex_job2], alarm_at := Some 1700000100000\<rparr>) = []"
    by (simp add: posts_def)
  ultimately show ?thesis
    using h3 ev by simp
qed

text \<open>
  C5 as it was stated fails for an entry that the prune deletes. Here the stored cache
  holds the key of the due job with the time of its send, and the invocation comes
  fifteen days after that send: the prune at the start of the invocation deletes the
  entry before the loop looks at the cache, and the invocation posts the message again.
\<close>

theorem stale_entry_counterexample:
  "map_of (load_delivered (delivered stale_world)) (deliveryKey ex_job) =
     Some (JNum 1700000000400) \<and>
   runAtMs ex_job \<le> 1701296000500 \<and>
   alarm 1701296000500 (\<lambda>_. True) stale_world =
     Inr \<lparr>jobs = [],
          delivered = DObject [(''id-1:1700000000'', JNum 1701296000500)],
          alarm_at = None,
          outbox = [(ex_job, render PingRole ex_job, True),
                    (ex_job, render PingRole ex_job, True)]\<rparr>"
  by (simp add: stale_world_def ex_defs eval_defs)

subsection \<open>C6: the drain loop and stored numbers that are \<^verbatim>\<open>NaN\<close>\<close>

text \<open>
  When every answer is ok, no stored type reads as an inherited property and every
  stored number is an integer, the invocation returns normally; no stored job is due
  afterwards and every job that was due is gone from the stored jobs; every message was
  answered ok and no two messages are for the same key; and, with one job per id, each
  due job of a registered type whose key the pruned cache did not hold has had its
  message posted.
\<close>

lemma integer_jobs_drained:
  assumes "\<forall>n. ok n"
    and "\<forall>x\<in>set (jobs w). doAtTypeHandlers (doAtType x) \<noteq> Inherited"
  shows "\<exists>w'. s_alarm now ok (as_stored_world w) = Some (Inr (as_stored_world w')) \<and>
              alarm now ok w = Inr w' \<and>
              (\<forall>x\<in>set (jobs w'). now < runAtMs x) \<and>
              (\<forall>j\<in>set (jobs w). runAtMs j \<le> now \<longrightarrow> j \<notin> set (jobs w')) \<and>
              (\<forall>e\<in>set (posts w w'). snd (snd e)) \<and>
              distinct (map (\<lambda>e. deliveryKey (fst e)) (posts w w')) \<and>
              (distinct (map id' (jobs w)) \<longrightarrow>
                 (\<forall>j\<in>set (jobs w). \<forall>h. runAtMs j \<le> now \<longrightarrow>
                    doAtTypeHandlers (doAtType j) = Own h \<longrightarrow>
                    deliveryKey j \<notin> fst ` set (cache0 now w) \<longrightarrow>
                    (j, render h j, True) \<in> set (posts w w')))"
proof -
  from drain_all_ok [OF assms, of now "cache0 now w"]
  obtain c v where r: "drain now ok (cache0 now w) w = Inr (c, v)"
    by blast
  define w' where "w' = resync (v\<lparr>delivered := DObject (pruneDelivered c now)\<rparr>)"
  have a: "alarm now ok w = Inr w'"
    using r by (simp add: alarm_Inr w'_def)
  then have s: "s_alarm now ok (as_stored_world w) = Some (Inr (as_stored_world w'))"
    by (simp add: s_alarm_as_stored)
  have jobs': "jobs w' = jobs v"
    by (simp add: w'_def)
  have p: "posts w w' = posts w (dworld (drain now ok (cache0 now w) w))"
    by (simp add: r dworld_def posts_def w'_def)
  have nd: "\<forall>x\<in>set (jobs w'). now < runAtMs x"
    using drain_Inr_no_due [OF r] by (simp add: jobs')
  then have gone: "\<forall>j\<in>set (jobs w). runAtMs j \<le> now \<longrightarrow> j \<notin> set (jobs w')"
    by fastforce
  have "\<forall>e\<in>set (posts w (dworld (drain now ok (cache0 now w) w))). snd (snd e)"
    by (rule drain_posts_ok) (simp add: r)
  then have allok: "\<forall>e\<in>set (posts w w'). snd (snd e)"
    by (simp only: p)
  have once: "distinct (map (\<lambda>e. deliveryKey (fst e)) (posts w w'))"
    unfolding p using pruned_cache0 by (rule drain_posts_distinct)
  have sent: "(j, render h j, True) \<in> set (posts w w')"
    if "distinct (map id' (jobs w))" "j \<in> set (jobs w)" "runAtMs j \<le> now"
      "doAtTypeHandlers (doAtType j) = Own h" "deliveryKey j \<notin> fst ` set (cache0 now w)"
    for j h
  proof -
    have "\<not> alreadyDelivered (cache0 now w) (deliveryKey j)"
      using that(5) by (simp add: alreadyDelivered_pruned [OF pruned_cache0])
    with that(1-4) show ?thesis
      unfolding p using r by (rule drain_due_delivered)
  qed
  from s a nd gone allok once sent show ?thesis
    by blast
qed


lemma integer_jobs_drained_example:
  "alarm 1700000100500 (\<lambda>_. True) two_due =
     Inr \<lparr>jobs = [ex_job2\<lparr>scheduledUnix := 1700086500, runAtMs := 1700086500000\<rparr>],
          delivered = DObject [(''id-1:1700000000'', JNum 1700000100500),
                               (''id-2:1700000100'', JNum 1700000100500)],
          alarm_at = Some 1700086500000,
          outbox = [(ex_job, render PingRole ex_job, True),
                    (ex_job2, render ChannelMessage ex_job2, True)]\<rparr> \<and>
   (\<exists>w'. s_alarm 1700000100500 (\<lambda>_. True) (as_stored_world two_due) =
           Some (Inr (as_stored_world w')) \<and>
         ex_job \<notin> set (jobs w') \<and> ex_job2 \<notin> set (jobs w') \<and>
         (ex_job, render PingRole ex_job, True) \<in> set (posts two_due w') \<and>
         (ex_job2, render ChannelMessage ex_job2, True) \<in> set (posts two_due w'))"
proof -
  have h1: "\<forall>n. (\<lambda>_. True) n"
    by simp
  have h2: "\<forall>x\<in>set (jobs two_due). doAtTypeHandlers (doAtType x) \<noteq> Inherited"
    by (simp add: ex_defs doAtTypeHandlers_def)
  have due: "ex_job \<in> set (jobs two_due)" "runAtMs ex_job \<le> 1700000100500"
    "ex_job2 \<in> set (jobs two_due)" "runAtMs ex_job2 \<le> 1700000100500"
    by (simp_all add: ex_defs)
  have own: "doAtTypeHandlers (doAtType ex_job) = Own PingRole"
    "doAtTypeHandlers (doAtType ex_job2) = Own ChannelMessage"
    by (simp_all add: ex_defs doAtTypeHandlers_def)
  have d: "distinct (map id' (jobs two_due))"
    by (simp add: ex_defs)
  have fresh: "deliveryKey j \<notin> fst ` set (cache0 1700000100500 two_due)" for j
    by (simp add: cache0_def two_due_def load_delivered_def pruneDelivered_def)
  have ev: "alarm 1700000100500 (\<lambda>_. True) two_due =
     Inr \<lparr>jobs = [ex_job2\<lparr>scheduledUnix := 1700086500, runAtMs := 1700086500000\<rparr>],
          delivered = DObject [(''id-1:1700000000'', JNum 1700000100500),
                               (''id-2:1700000100'', JNum 1700000100500)],
          alarm_at = Some 1700086500000,
          outbox = [(ex_job, render PingRole ex_job, True),
                    (ex_job2, render ChannelMessage ex_job2, True)]\<rparr>"
    by (simp add: ex_defs eval_defs)
  from integer_jobs_drained [OF h1 h2, of 1700000100500]
  obtain w' where w':
    "s_alarm 1700000100500 (\<lambda>_. True) (as_stored_world two_due) = Some (Inr (as_stored_world w'))"
    "\<forall>j\<in>set (jobs two_due). runAtMs j \<le> 1700000100500 \<longrightarrow> j \<notin> set (jobs w')"
    "distinct (map id' (jobs two_due)) \<longrightarrow>
       (\<forall>j\<in>set (jobs two_due). \<forall>h. runAtMs j \<le> 1700000100500 \<longrightarrow>
          doAtTypeHandlers (doAtType j) = Own h \<longrightarrow>
          deliveryKey j \<notin> fst ` set (cache0 1700000100500 two_due) \<longrightarrow>
          (j, render h j, True) \<in> set (posts two_due w'))"
    by blast
  from w'(2) due have "ex_job \<notin> set (jobs w')" "ex_job2 \<notin> set (jobs w')"
    by blast+
  moreover from w'(3) d due own fresh
  have "(ex_job, render PingRole ex_job, True) \<in> set (posts two_due w')"
    "(ex_job2, render ChannelMessage ex_job2, True) \<in> set (posts two_due w')"
    by blast+
  ultimately show ?thesis
    using ev w'(1) by blast
qed

text \<open>
  C6 fails for a stored job whose numbers are \<^verbatim>\<open>NaN\<close>. \<^verbatim>\<open>/schedule\<close> stores such a job for
  a body without \<^verbatim>\<open>scheduledUnix\<close>. In the alarm handler the test \<^verbatim>\<open>job.runAtMs > nowMs\<close>
  is false, so the job counts as due; its message is posted and its key recorded; then
  \<^verbatim>\<open>j.scheduledUnix === job.scheduledUnix\<close> is false for the job itself, the second
  transaction returns at \<^verbatim>\<open>idx === -1\<close>, and every later run of the loop finds the same
  first job, skips the send and returns from the transaction in the same way. The
  invocation never reaches \<^verbatim>\<open>break\<close>, at any clock value. The same job with a type that
  has no handler is not purged either: the transaction of that branch uses the same
  match.
\<close>

theorem nan_job_never_drained:
  "s_jobs (s_schedule_transaction ''id-1'' nan_body s_empty_world) = [nan_job] \<and>
   \<not> num_gt (s_runAtMs nan_job) now \<and>
   \<not> s_same_occurrence nan_job nan_job \<and>
   s_alarm now (\<lambda>_. True) (s_empty_world\<lparr>s_jobs := [nan_job]\<rparr>) = None \<and>
   s_alarm now (\<lambda>_. True) (s_empty_world\<lparr>s_jobs := [nan_job\<lparr>s_doAtType := ''legacy''\<rparr>]\<rparr>) = None"
proof -
  have "s_jobs (s_schedule_transaction ''id-1'' nan_body s_empty_world) = [nan_job]"
    by (simp add: s_schedule_transaction_def nan_body_def nan_job_def s_empty_world_def
        in_doAtTypeHandlers_def doAtTypeHandlers_def num_times_def Let_def)
  moreover have "\<not> num_gt (s_runAtMs nan_job) now"
    by (simp add: nan_job_def num_gt_def)
  moreover have "\<not> s_same_occurrence nan_job nan_job"
    by (simp add: nan_job_def s_same_occurrence_def strict_equal_def)
  moreover have "s_alarm now (\<lambda>_. True) (s_empty_world\<lparr>s_jobs := [nan_job]\<rparr>) = None"
    by (rule nan_job_never_returns [of nan_job])
       (simp_all add: nan_job_def doAtTypeHandlers_def)
  moreover have "s_alarm now (\<lambda>_. True)
      (s_empty_world\<lparr>s_jobs := [nan_job\<lparr>s_doAtType := ''legacy''\<rparr>]\<rparr>) = None"
    by (rule nan_job_never_returns [of "nan_job\<lparr>s_doAtType := ''legacy''\<rparr>"])
       (simp_all add: nan_job_def doAtTypeHandlers_def object_prototype_keys_def)
  ultimately show ?thesis
    by simp
qed

subsection \<open>C1: a wake that is retried\<close>

text \<open>
  C1. Let a message for \<open>j\<close> be answered ok in a first invocation at \<open>now\<close>, however that
  invocation ends, and let a second invocation follow at \<open>now2\<close>, not more than 14 days
  after \<open>now\<close>. Then the stored cache holds the key of \<open>j\<close> with the time \<open>now\<close> after the
  first invocation; over both invocations exactly one message is posted for that key;
  and, with one job per id, the stored jobs hold for the id of \<open>j\<close> nothing (or, for a
  repeating job, exactly the job advanced once) after the first invocation, and the same
  after the second when the advanced job is not yet due at \<open>now2\<close>.
\<close>

theorem retried_wake_idempotent:
  assumes sent: "(j, m, True) \<in> set (posts w (world_of (alarm now ok w)))"
    and retry: "now2 \<le> now + DELIVERED_TTL_MS"
  shows "(\<exists>cf. delivered (world_of (alarm now ok w)) = DObject cf \<and>
               map_of cf (deliveryKey j) = Some (JNum now)) \<and>
         length (filter (\<lambda>e. deliveryKey (fst e) = deliveryKey j)
                   (posts w (world_of (alarm now ok w)) @
                    posts (world_of (alarm now ok w))
                      (world_of (alarm now2 ok2 (world_of (alarm now ok w)))))) = 1 \<and>
         (distinct (map id' (jobs w)) \<longrightarrow>
            {x \<in> set (jobs (world_of (alarm now ok w))). id' x = id' j} =
              (if repeatDaily j then {advance now j} else {}) \<and>
            (now2 < runAtMs (advance now j) \<longrightarrow>
               {x \<in> set (jobs (world_of (alarm now2 ok2 (world_of (alarm now ok w))))).
                  id' x = id' j} =
                 (if repeatDaily j then {advance now j} else {})))"
proof -
  define w1 where "w1 = world_of (alarm now ok w)"
  define w2 where "w2 = world_of (alarm now2 ok2 w1)"
  let ?r1 = "drain now ok (cache0 now w) w"
  let ?r2 = "drain now2 ok2 (cache0 now2 w1) w1"
  have sent1: "(j, m, True) \<in> set (posts w (dworld ?r1))"
    using sent by (simp add: posts_alarm)
  from alarm_sent_recorded [OF sent] obtain cf where
    cf: "delivered w1 = DObject cf" "recorded now cf (deliveryKey j)"
    unfolding w1_def by blast
  have a: "\<exists>cf. delivered w1 = DObject cf \<and> map_of cf (deliveryKey j) = Some (JNum now)"
    using cf recorded_map_of by blast
  have one: "length (filter (\<lambda>e. deliveryKey (fst e) = deliveryKey j) (posts w w1)) = 1"
  proof -
    have "distinct (map (\<lambda>e. deliveryKey (fst e)) (posts w (dworld ?r1)))"
      using pruned_cache0 by (rule drain_posts_distinct)
    from count_distinct_key [OF this sent1] show ?thesis
      by (simp add: w1_def posts_alarm)
  qed
  have none: "filter (\<lambda>e. deliveryKey (fst e) = deliveryKey j) (posts w1 w2) = []"
  proof -
    have "cache0 now2 w1 = pruneDelivered cf now2"
      by (simp add: cache0_def cf(1) load_delivered_def)
    then have "deliveryKey j \<in> fst ` set (cache0 now2 w1)"
      using recorded_survives_prune [OF cf(2) retry] by simp
    moreover have "\<forall>e\<in>set (posts w1 (dworld ?r2)).
        deliveryKey (fst e) \<notin> fst ` set (cache0 now2 w1)"
      using pruned_cache0 by (rule drain_posts_fresh)
    ultimately have "\<forall>e\<in>set (posts w1 w2). deliveryKey (fst e) \<noteq> deliveryKey j"
      unfolding w2_def posts_alarm by metis
    then show ?thesis
      by (simp add: filter_empty_conv)
  qed
  have b: "length (filter (\<lambda>e. deliveryKey (fst e) = deliveryKey j)
                   (posts w w1 @ posts w1 w2)) = 1"
    using one none by simp
  have c: "{x \<in> set (jobs w1). id' x = id' j} =
              (if repeatDaily j then {advance now j} else {}) \<and>
            (now2 < runAtMs (advance now j) \<longrightarrow>
               {x \<in> set (jobs w2). id' x = id' j} =
                 (if repeatDaily j then {advance now j} else {}))"
    if d: "distinct (map id' (jobs w))"
  proof -
    have j1: "jobs w1 = jobs (dworld ?r1)"
      by (simp add: w1_def jobs_alarm)
    have j2: "jobs w2 = jobs (dworld ?r2)"
      by (simp add: w2_def jobs_alarm)
    have s1: "{x \<in> set (jobs w1). id' x = id' j} = (if repeatDaily j then {advance now j} else {})"
      using drain_sent_rescheduled [OF d sent1] by (simp only: j1)
    have d1: "distinct (map id' (jobs w1))"
      using drain_distinct_ids [OF d] by (simp only: j1)
    have s2: "{x \<in> set (jobs w2). id' x = id' j} = (if repeatDaily j then {advance now j} else {})"
      if fut: "now2 < runAtMs (advance now j)"
    proof -
      have "now2 < runAtMs x" if "x \<in> {x \<in> set (jobs w1). id' x = id' j}" for x
        using that fut unfolding s1 by (simp split: if_splits)
      then have "\<forall>x\<in>set (jobs w1). id' x = id' j \<longrightarrow> now2 < runAtMs x"
        by simp
      from drain_keeps_future [OF d1 this, of ok2 "cache0 now2 w1"] s1 show ?thesis
        by (simp only: j2)
    qed
    from s1 s2 show ?thesis by blast
  qed
  from a b c show ?thesis
    unfolding w1_def w2_def by blast
qed

lemma ex_alarm_failed:
  "alarm 1700000100500 (\<lambda>n. n = 0) two_due = Inl (DiscordApiError, failed_world)"
  by (simp add: failed_world_def ex_defs eval_defs)

lemma ex_alarm_retried:
  "alarm 1700000100600 (\<lambda>_. True) failed_world = Inr retried_world"
  by (simp add: failed_world_def retried_world_def ex_defs eval_defs)

theorem retried_wake_idempotent_witness:
  "alarm 1700000100500 (\<lambda>n. n = 0) two_due = Inl (DiscordApiError, failed_world) \<and>
   alarm 1700000100600 (\<lambda>_. True) failed_world = Inr retried_world \<and>
   (ex_job, render PingRole ex_job, True) \<in> set (posts two_due failed_world) \<and>
   length (filter (\<lambda>e. deliveryKey (fst e) = deliveryKey ex_job)
             (posts two_due failed_world @ posts failed_world retried_world)) = 1 \<and>
   {x \<in> set (jobs failed_world). id' x = id' ex_job} = {} \<and>
   {x \<in> set (jobs retried_world). id' x = id' ex_job} = {}"
proof -
  have w1: "world_of (alarm 1700000100500 (\<lambda>n. n = 0) two_due) = failed_world"
    by (simp add: ex_alarm_failed world_of_def)
  have w2: "world_of (alarm 1700000100600 (\<lambda>_. True) failed_world) = retried_world"
    by (simp add: ex_alarm_retried world_of_def)
  have sent: "(ex_job, render PingRole ex_job, True)
      \<in> set (posts two_due (world_of (alarm 1700000100500 (\<lambda>n. n = 0) two_due)))"
    unfolding w1 by (simp add: posts_def failed_world_def two_due_def)
  have retry: "(1700000100600 :: int) \<le> 1700000100500 + DELIVERED_TTL_MS"
    by (simp add: DELIVERED_TTL_MS_def)
  have d: "distinct (map id' (jobs two_due))"
    by (simp add: ex_defs)
  have nr: "\<not> repeatDaily ex_job"
    by (simp add: ex_defs)
  have fut: "(1700000100600 :: int) < runAtMs (advance 1700000100500 ex_job)"
    using advance_future [of 1700000100500 ex_job] advance_closed [of ex_job 1700000100500]
    by (simp add: ex_defs)
  note T = retried_wake_idempotent [OF sent retry, of "\<lambda>_. True", unfolded w1 w2]
  from T d nr fut sent ex_alarm_failed ex_alarm_retried show ?thesis
    unfolding w1 by simp
qed

subsection \<open>C9: a stored type without a handler\<close>

text \<open>
  For a due first job whose key the pruned cache does not hold and whose type reads as
  \<^verbatim>\<open>undefined\<close>, the invocation posts nothing for it and goes on as the invocation on
  the world from which the first stored job with this id and \<open>scheduledUnix\<close> is removed.
\<close>

lemma undefined_type_purged:
  assumes "sort_by_runAtMs (jobs w) = job # rest" and "runAtMs job \<le> now"
    and "deliveryKey job \<notin> fst ` set (cache0 now w)"
    and "doAtTypeHandlers (doAtType job) = Undefined"
  shows "alarm now ok w = alarm now ok (purge_unknown job w) \<and>
         outbox (purge_unknown job w) = outbox w \<and>
         (\<exists>i. findIndex (same_occurrence job) (jobs w) = Some i \<and>
              jobs (purge_unknown job w) = sort_by_runAtMs (splice1 i (jobs w)))"
proof -
  have "\<not> alreadyDelivered (cache0 now w) (deliveryKey job)"
    using assms(3) by (simp add: alreadyDelivered_pruned [OF pruned_cache0])
  with assms(1,2)
  have "drain now ok (cache0 now w) w = drain now ok (cache0 now w) (purge_unknown job w)"
    using assms(4) by (rule drain_purge)
  moreover have "cache0 now (purge_unknown job w) = cache0 now w"
    by (simp add: cache0_def)
  ultimately have 1: "alarm now ok w = alarm now ok (purge_unknown job w)"
    by (simp add: alarm_def cache0_def)
  have "job \<in> set (jobs w)"
    using assms(1) by (simp add: set_head_rest)
  then have "findIndex (same_occurrence job) (jobs w) \<noteq> None"
    by (auto simp: findIndex_None same_occurrence_def)
  then obtain i where i: "findIndex (same_occurrence job) (jobs w) = Some i"
    by auto
  then have "jobs (purge_unknown job w) = sort_by_runAtMs (splice1 i (jobs w))"
    by (simp add: purge_unknown_def)
  with 1 i show ?thesis
    by simp
qed

text \<open>
  C9 fails for a type that names a property of \<^verbatim>\<open>Object.prototype\<close>. The fetch handler
  accepts \<^verbatim>\<open>"constructor"\<close> (the test is \<^verbatim>\<open>in\<close>) and stores the job; when the job is
  due, the read \<^verbatim>\<open>doAtTypeHandlers["constructor"]\<close> is not \<^verbatim>\<open>undefined\<close>, the purge is
  skipped and \<^verbatim>\<open>handler.innerContent(job)\<close> throws: nothing is posted, the job stays
  stored, and every later invocation throws again. A type that reads as \<^verbatim>\<open>undefined\<close>
  is purged, as the last equation shows.
\<close>

theorem inherited_type_not_purged:
  "schedule ''id-1'' (ex_body\<lparr>b_doAtType := ''constructor''\<rparr>) empty_world =
     (Scheduled inherited_job,
      empty_world\<lparr>jobs := [inherited_job], alarm_at := Some 1700000000000\<rparr>) \<and>
   doAtTypeHandlers (doAtType inherited_job) = Inherited \<and>
   runAtMs inherited_job \<le> 1700000000500 \<and>
   alarm 1700000000500 (\<lambda>_. True)
       (empty_world\<lparr>jobs := [inherited_job], alarm_at := Some 1700000000000\<rparr>) =
     Inl (TypeError, empty_world\<lparr>jobs := [inherited_job], alarm_at := Some 1700000000000\<rparr>) \<and>
   alarm 1700000000500 (\<lambda>_. True)
       (empty_world\<lparr>jobs := [legacy_job], alarm_at := Some 1700000000000\<rparr>) =
     Inr (empty_world\<lparr>jobs := [], delivered := DObject [], alarm_at := None\<rparr>)"
  by (simp add: inherited_job_def legacy_job_def ex_defs eval_defs)

end
